theory Spec2Isabelle
  imports Complex_Main "HOL-Library.Sublist" "HOL-Library.Log_Nat" "HOL-Library.Word"
begin

unbundle bit_operations_syntax

section \<open>Machine arithmetic\<close>

text \<open>
  The program is built for the Android ABIs, where \<open>int32_t\<close> and \<open>int64_t\<close> are two's
  complement words and \<open>float\<close> and \<open>double\<close> are IEEE 754 binary32 and binary64 with
  rounding to nearest, ties to even. A \<open>float\<close> or \<open>double\<close> value is modelled by the
  real number it denotes, and every conversion and arithmetic operation by the exact
  result rounded into the format.

  \<open>ilog2 x\<close> is the binary exponent of a positive real: \<open>2 powi ilog2 x \<le> x < 2 powi (ilog2 x + 1)\<close>
  (\<open>ilog2_bounds\<close>).
\<close>

definition ilog2 :: "real \<Rightarrow> int" where
  "ilog2 x =
     (if 1 \<le> x then bitlen \<lfloor>x\<rfloor> - 1
      else let j = bitlen \<lfloor>1 / x\<rfloor> - 1
           in if 1 / x = 2 ^ nat j then - j else - j - 1)"

text \<open>The integer nearest to \<open>y\<close>; of two equally near ones the even one.\<close>

definition round_even :: "real \<Rightarrow> int" where
  "round_even y =
     (let f = \<lfloor>y\<rfloor>; r = y - of_int f
      in if r < 1 / 2 then f else if 1 / 2 < r then f + 1 else if even f then f else f + 1)"

text \<open>
  Rounding into the binary format with \<open>p\<close> significant bits and least normal exponent
  \<open>emin\<close>: the result is a multiple of the unit in the last place of the binade of \<open>x\<close>,
  and below the normal range of the least subnormal. No quantity computed by the
  functions below reaches the largest finite value of its format (\<open>updateStats_in_range\<close>,
  \<open>getStats_in_range\<close>) and no divisor is zero, so the formats' infinities and NaNs are
  not modelled.
\<close>

definition fp_round :: "nat \<Rightarrow> int \<Rightarrow> real \<Rightarrow> real" where
  "fp_round p emin x =
     (if x = 0 then 0
      else let e = max emin (ilog2 \<bar>x\<bar>);
               ulp = 2 powi (e - int p + 1)
           in sgn x * (of_int (round_even (\<bar>x\<bar> / ulp)) * ulp))"

definition round_double :: "real \<Rightarrow> real" where
  "round_double = fp_round 53 (- 1022)"

definition round_float :: "real \<Rightarrow> real" where
  "round_float = fp_round 24 (- 126)"

text \<open>
  \<open>static_cast<double>\<close> of an \<open>int64_t\<close> and of an \<open>int32_t\<close> (the latter is also the
  implicit conversion of an \<open>int32_t\<close> operand of a \<open>double\<close> division),
  \<open>static_cast<float>\<close> of a \<open>double\<close>, and the division of two \<open>double\<close>s.
\<close>

definition double_of_int64 :: "64 word \<Rightarrow> real" where
  "double_of_int64 w = round_double (real_of_int (sint w))"

definition double_of_int32 :: "32 word \<Rightarrow> real" where
  "double_of_int32 w = round_double (real_of_int (sint w))"

definition float_of_double :: "real \<Rightarrow> real" where
  "float_of_double d = round_float d"

definition double_div :: "real \<Rightarrow> real \<Rightarrow> real" where
  "double_div a b = round_double (a / b)"

section \<open>Camera stream (camera\_stream.h, camera\_stream.cpp)\<close>

subsection \<open>Native handles and the record of native calls\<close>

text \<open>
  An NDK object is named by a handle; a C++ pointer to it is a \<open>handle option\<close>, with
  \<open>None\<close> for \<open>nullptr\<close>. The camera service is not part of the program: what each of its
  calls answers during one \<open>startPreview\<close> is given by a \<open>camera_service\<close> value, a status
  and what the call did to its out-parameter. Every native call the stream makes is
  appended to \<open>trace_'\<close>, a ghost field of the stream, so that "no native operation" and
  "released" are statements about that list. A member \<open>x_\<close> of a C++ class is written
  \<open>x_'\<close> here, since an Isabelle name cannot end in an underscore.
\<close>

type_synonym handle = nat

type_synonym camera_status_t = int

definition ACAMERA_OK :: camera_status_t where
  "ACAMERA_OK = 0"

datatype out_param = Untouched | Stored "handle option"

fun store_out :: "out_param \<Rightarrow> handle option \<Rightarrow> handle option" where
  "store_out Untouched p = p"
| "store_out (Stored q) p = q"

datatype resource = Window | Device | Session | Request | Target | Output | Container

datatype native_fn =
    FN_openCamera
  | FN_OutputTarget_create
  | FN_createCaptureRequest
  | FN_addTarget
  | FN_Container_create
  | FN_SessionOutput_create
  | FN_Container_add
  | FN_createCaptureSession
  | FN_setRepeatingRequest

datatype native_event =
    Called native_fn camera_status_t
  | Acquired resource handle
  | StopRepeating handle
  | Released resource handle

record camera_service =
  openCamera_r :: "camera_status_t \<times> out_param"
  OutputTarget_create_r :: "camera_status_t \<times> out_param"
  createCaptureRequest_r :: "camera_status_t \<times> out_param"
  addTarget_r :: camera_status_t
  Container_create_r :: "camera_status_t \<times> out_param"
  SessionOutput_create_r :: "camera_status_t \<times> out_param"
  Container_add_r :: camera_status_t
  createCaptureSession_r :: "camera_status_t \<times> out_param"
  setRepeatingRequest_r :: camera_status_t

text \<open>The events of one creating call: the call, and the object it handed out, if any.\<close>

fun create_events :: "native_fn \<Rightarrow> resource \<Rightarrow> camera_status_t \<times> out_param \<Rightarrow> native_event list" where
  "create_events f r (st, Stored (Some h)) =
     (if st = ACAMERA_OK then [Called f st, Acquired r h] else [Called f st])"
| "create_events f r (st, Stored None) = [Called f st]"
| "create_events f r (st, Untouched) = [Called f st]"

subsection \<open>The stream object\<close>

record CameraStats =
  frameRateHz :: real
  latencyMs :: real
  frameCount :: "64 word"
  droppedFrames :: "64 word"

text \<open>
  \<open>manager_'\<close> is the \<open>cameraManager_\<close> pointer of the referenced \<open>CameraManager\<close>
  (\<open>isValid()\<close> tests it for null). \<open>statsCallback_'\<close> holds the identity of the registered
  callback; \<open>delivered_'\<close> (ghost) lists the snapshots it was invoked with. The \<open>float\<close>
  members hold the real numbers that their \<open>float\<close> values denote; the \<open>int64_t\<close>
  counters and timestamps are 64-bit words, read as signed numbers by \<open>sint\<close>.
\<close>

record CameraStream =
  manager_' :: "handle option"
  streaming_' :: bool
  currentCameraId_' :: string
  cameraDevice_' :: "handle option"
  captureSession_' :: "handle option"
  outputContainer_' :: "handle option"
  sessionOutput_' :: "handle option"
  outputTarget_' :: "handle option"
  captureRequest_' :: "handle option"
  surface_' :: "handle option"
  statsCallback_' :: "nat option"
  frameCount_' :: "64 word"
  droppedFrames_' :: "64 word"
  prevFrameTimestampNs_' :: "64 word"
  lastFrameRateHz_' :: real
  lastLatencyMs_' :: real
  lastCallbackTimeNs_' :: "64 word"
  trace_' :: "native_event list"
  delivered_' :: "CameraStats list"

definition new_CameraStream :: "handle option \<Rightarrow> CameraStream" where
  "new_CameraStream mgr =
     \<lparr>manager_' = mgr, streaming_' = False, currentCameraId_' = [],
      cameraDevice_' = None, captureSession_' = None, outputContainer_' = None,
      sessionOutput_' = None, outputTarget_' = None, captureRequest_' = None,
      surface_' = None, statsCallback_' = None, frameCount_' = 0, droppedFrames_' = 0,
      prevFrameTimestampNs_' = 0, lastFrameRateHz_' = 0, lastLatencyMs_' = 0,
      lastCallbackTimeNs_' = 0, trace_' = [], delivered_' = []\<rparr>"

definition isStreaming :: "CameraStream \<Rightarrow> bool" where
  "isStreaming s = streaming_' s"

subsection \<open>cleanup\<close>

text \<open>Each release block of \<open>cleanup()\<close>: skipped on a null handle, else release and null.\<close>

definition release_session :: "CameraStream \<Rightarrow> CameraStream" where
  "release_session s =
     (case captureSession_' s of
        None \<Rightarrow> s
      | Some h \<Rightarrow> s\<lparr>captureSession_' := None,
                     trace_' := trace_' s @ [StopRepeating h, Released Session h]\<rparr>)"

definition release_device :: "CameraStream \<Rightarrow> CameraStream" where
  "release_device s =
     (case cameraDevice_' s of
        None \<Rightarrow> s
      | Some h \<Rightarrow> s\<lparr>cameraDevice_' := None, trace_' := trace_' s @ [Released Device h]\<rparr>)"

definition release_request :: "CameraStream \<Rightarrow> CameraStream" where
  "release_request s =
     (case captureRequest_' s of
        None \<Rightarrow> s
      | Some h \<Rightarrow> s\<lparr>captureRequest_' := None, trace_' := trace_' s @ [Released Request h]\<rparr>)"

definition release_target :: "CameraStream \<Rightarrow> CameraStream" where
  "release_target s =
     (case outputTarget_' s of
        None \<Rightarrow> s
      | Some h \<Rightarrow> s\<lparr>outputTarget_' := None, trace_' := trace_' s @ [Released Target h]\<rparr>)"

definition release_output :: "CameraStream \<Rightarrow> CameraStream" where
  "release_output s =
     (case sessionOutput_' s of
        None \<Rightarrow> s
      | Some h \<Rightarrow> s\<lparr>sessionOutput_' := None, trace_' := trace_' s @ [Released Output h]\<rparr>)"

definition release_container :: "CameraStream \<Rightarrow> CameraStream" where
  "release_container s =
     (case outputContainer_' s of
        None \<Rightarrow> s
      | Some h \<Rightarrow> s\<lparr>outputContainer_' := None, trace_' := trace_' s @ [Released Container h]\<rparr>)"

definition release_surface :: "CameraStream \<Rightarrow> CameraStream" where
  "release_surface s =
     (case surface_' s of
        None \<Rightarrow> s
      | Some h \<Rightarrow> s\<lparr>surface_' := None, trace_' := trace_' s @ [Released Window h]\<rparr>)"

definition cleanup :: "CameraStream \<Rightarrow> CameraStream" where
  "cleanup s =
     (let s1 = s\<lparr>streaming_' := False\<rparr>;
          s2 = release_session s1;
          s3 = release_device s2;
          s4 = release_request s3;
          s5 = release_target s4;
          s6 = release_output s5;
          s7 = release_container s6;
          s8 = release_surface s7
      in s8\<lparr>currentCameraId_' := [], statsCallback_' := None\<rparr>)"

subsection \<open>stopPreview and the device notifications\<close>

definition stopPreview :: "CameraStream \<Rightarrow> CameraStream" where
  "stopPreview s = (if \<not> streaming_' s then s else cleanup s)"

definition onDeviceDisconnected :: "CameraStream \<Rightarrow> CameraStream" where
  "onDeviceDisconnected s = s\<lparr>streaming_' := False\<rparr>"

definition onDeviceError :: "int \<Rightarrow> CameraStream \<Rightarrow> CameraStream" where
  "onDeviceError error s = s\<lparr>streaming_' := False\<rparr>"

subsection \<open>startPreview\<close>

text \<open>
  The acquisition steps of \<open>startPreview\<close>, in the order of the source. Each step makes
  its native call, stores what the call wrote to the member it was given, and tests the
  status as the source does: \<open>Inl\<close> is the state in which the step failed (the source
  then runs \<open>cleanup(); return false;\<close>), \<open>Inr\<close> the state in which the next step starts.
\<close>

definition open_device :: "camera_service \<Rightarrow> CameraStream \<Rightarrow> CameraStream + CameraStream" where
  "open_device cs s =
     (let status = fst (openCamera_r cs);
          s' = s\<lparr>cameraDevice_' := store_out (snd (openCamera_r cs)) (cameraDevice_' s),
                 trace_' := trace_' s @ create_events FN_openCamera Device (openCamera_r cs)\<rparr>
      in if status \<noteq> ACAMERA_OK \<or> cameraDevice_' s' = None then Inl s' else Inr s')"

definition create_output_target :: "camera_service \<Rightarrow> CameraStream \<Rightarrow> CameraStream + CameraStream" where
  "create_output_target cs s =
     (let status = fst (OutputTarget_create_r cs);
          s' = s\<lparr>outputTarget_' := store_out (snd (OutputTarget_create_r cs)) (outputTarget_' s),
                 trace_' := trace_' s
                   @ create_events FN_OutputTarget_create Target (OutputTarget_create_r cs)\<rparr>
      in if status \<noteq> ACAMERA_OK then Inl s' else Inr s')"

definition create_capture_request :: "camera_service \<Rightarrow> CameraStream \<Rightarrow> CameraStream + CameraStream" where
  "create_capture_request cs s =
     (let status = fst (createCaptureRequest_r cs);
          s' = s\<lparr>captureRequest_' :=
                   store_out (snd (createCaptureRequest_r cs)) (captureRequest_' s),
                 trace_' := trace_' s
                   @ create_events FN_createCaptureRequest Request (createCaptureRequest_r cs)\<rparr>
      in if status \<noteq> ACAMERA_OK then Inl s' else Inr s')"

definition add_target :: "camera_service \<Rightarrow> CameraStream \<Rightarrow> CameraStream + CameraStream" where
  "add_target cs s =
     (let status = addTarget_r cs;
          s' = s\<lparr>trace_' := trace_' s @ [Called FN_addTarget status]\<rparr>
      in if status \<noteq> ACAMERA_OK then Inl s' else Inr s')"

definition create_output_container :: "camera_service \<Rightarrow> CameraStream \<Rightarrow> CameraStream + CameraStream" where
  "create_output_container cs s =
     (let status = fst (Container_create_r cs);
          s' = s\<lparr>outputContainer_' :=
                   store_out (snd (Container_create_r cs)) (outputContainer_' s),
                 trace_' := trace_' s
                   @ create_events FN_Container_create Container (Container_create_r cs)\<rparr>
      in if status \<noteq> ACAMERA_OK then Inl s' else Inr s')"

definition create_session_output :: "camera_service \<Rightarrow> CameraStream \<Rightarrow> CameraStream + CameraStream" where
  "create_session_output cs s =
     (let status = fst (SessionOutput_create_r cs);
          s' = s\<lparr>sessionOutput_' :=
                   store_out (snd (SessionOutput_create_r cs)) (sessionOutput_' s),
                 trace_' := trace_' s
                   @ create_events FN_SessionOutput_create Output (SessionOutput_create_r cs)\<rparr>
      in if status \<noteq> ACAMERA_OK then Inl s' else Inr s')"

definition add_output :: "camera_service \<Rightarrow> CameraStream \<Rightarrow> CameraStream + CameraStream" where
  "add_output cs s =
     (let status = Container_add_r cs;
          s' = s\<lparr>trace_' := trace_' s @ [Called FN_Container_add status]\<rparr>
      in if status \<noteq> ACAMERA_OK then Inl s' else Inr s')"

definition create_capture_session :: "camera_service \<Rightarrow> CameraStream \<Rightarrow> CameraStream + CameraStream" where
  "create_capture_session cs s =
     (let status = fst (createCaptureSession_r cs);
          s' = s\<lparr>captureSession_' :=
                   store_out (snd (createCaptureSession_r cs)) (captureSession_' s),
                 trace_' := trace_' s
                   @ create_events FN_createCaptureSession Session (createCaptureSession_r cs)\<rparr>
      in if status \<noteq> ACAMERA_OK \<or> captureSession_' s' = None then Inl s' else Inr s')"

definition set_repeating_request :: "camera_service \<Rightarrow> CameraStream \<Rightarrow> CameraStream + CameraStream" where
  "set_repeating_request cs s =
     (let status = setRepeatingRequest_r cs;
          s' = s\<lparr>trace_' := trace_' s @ [Called FN_setRepeatingRequest status]\<rparr>
      in if status \<noteq> ACAMERA_OK then Inl s' else Inr s')"

text \<open>Steps run in order until one fails.\<close>

fun run_steps :: "('s \<Rightarrow> 's + 's) list \<Rightarrow> 's \<Rightarrow> 's + 's" where
  "run_steps [] s = Inr s"
| "run_steps (f # fs) s = (case f s of Inl s' \<Rightarrow> Inl s' | Inr s' \<Rightarrow> run_steps fs s')"

definition acquisition_steps :: "camera_service \<Rightarrow> (CameraStream \<Rightarrow> CameraStream + CameraStream) list" where
  "acquisition_steps cs =
     [open_device cs, create_output_target cs, create_capture_request cs, add_target cs,
      create_output_container cs, create_session_output cs, add_output cs,
      create_capture_session cs, set_repeating_request cs]"

text \<open>
  The part of \<open>startPreview\<close> between the null-surface test and the opening of the
  device: take the surface, register the callback and the camera id, reset the statistics.
\<close>

definition begin_start :: "string \<Rightarrow> handle \<Rightarrow> nat option \<Rightarrow> CameraStream \<Rightarrow> CameraStream" where
  "begin_start cameraId w statsCallback s =
     s\<lparr>surface_' := Some w,
       trace_' := trace_' s @ [Acquired Window w],
       statsCallback_' := statsCallback,
       currentCameraId_' := cameraId,
       frameCount_' := 0,
       droppedFrames_' := 0,
       prevFrameTimestampNs_' := 0,
       lastFrameRateHz_' := 0,
       lastLatencyMs_' := 0,
       lastCallbackTimeNs_' := 0\<rparr>"

definition startPreview ::
  "camera_service \<Rightarrow> string \<Rightarrow> handle option \<Rightarrow> nat option \<Rightarrow> CameraStream \<Rightarrow> bool \<times> CameraStream" where
  "startPreview cs cameraId surface statsCallback s =
     (if streaming_' s \<and> currentCameraId_' s = cameraId then (True, s)
      else
        let s1 = (if streaming_' s then cleanup s else s) in
        if manager_' s1 = None then (False, s1)
        else
          case surface of
            None \<Rightarrow> (False, s1)
          | Some w \<Rightarrow>
              (case run_steps (acquisition_steps cs) (begin_start cameraId w statsCallback s1) of
                 Inl s' \<Rightarrow> (False, cleanup s')
               | Inr s' \<Rightarrow> (True, s'\<lparr>streaming_' := True\<rparr>)))"

subsection \<open>getStats and updateStats\<close>

definition kNsPerSecond :: "64 word" where
  "kNsPerSecond = 1000000000"

definition kNsToMs :: real where
  "kNsToMs = 1000000"

definition CameraStream_getStats :: "CameraStream \<Rightarrow> CameraStats" where
  "CameraStream_getStats s =
     \<lparr>frameRateHz = lastFrameRateHz_' s, latencyMs = lastLatencyMs_' s,
      frameCount = frameCount_' s, droppedFrames = droppedFrames_' s\<rparr>"

text \<open>
  \<open>updateStats(timestampNs)\<close>; \<open>now\<close> is what \<open>getBootTimeNs()\<close> reads at its entry.
  \<open>fetch_add\<close> on the atomic counter and the \<open>int64_t\<close> subtractions are the word
  operations; the comparisons of \<open>int64_t\<close> values compare the signed readings. The
  division by \<open>kNsPerSecond\<close> converts that constant to \<open>double\<close>.
\<close>

definition updateStats :: "64 word \<Rightarrow> 64 word \<Rightarrow> CameraStream \<Rightarrow> CameraStream" where
  "updateStats now timestampNs s =
     (let s1 = s\<lparr>frameCount_' := frameCount_' s + 1\<rparr>;
          s2 = (if sint (prevFrameTimestampNs_' s1) > 0
                     \<and> sint timestampNs > sint (prevFrameTimestampNs_' s1)
                then let intervalSec =
                           double_div (double_of_int64 (timestampNs - prevFrameTimestampNs_' s1))
                             (double_of_int64 kNsPerSecond)
                     in s1\<lparr>lastFrameRateHz_' := float_of_double (double_div 1 intervalSec)\<rparr>
                else s1);
          s3 = s2\<lparr>prevFrameTimestampNs_' := timestampNs\<rparr>;
          s4 = (if sint timestampNs > 0 \<and> sint now > sint timestampNs
                then s3\<lparr>lastLatencyMs_' :=
                         float_of_double (double_div (double_of_int64 (now - timestampNs)) kNsToMs)\<rparr>
                else s3)
      in if statsCallback_' s4 \<noteq> None
            \<and> sint (now - lastCallbackTimeNs_' s4) \<ge> sint kNsPerSecond
         then s4\<lparr>delivered_' := delivered_' s4 @ [CameraStream_getStats s4],
                 lastCallbackTimeNs_' := now\<rparr>
         else s4)"

definition onCaptureStarted :: "64 word \<Rightarrow> 64 word \<Rightarrow> CameraStream \<Rightarrow> CameraStream" where
  "onCaptureStarted now timestamp s = updateStats now timestamp s"

subsection \<open>Vocabulary for the claims about the stream\<close>

text \<open>The member that holds a resource of each kind.\<close>

fun held :: "resource \<Rightarrow> CameraStream \<Rightarrow> handle option" where
  "held Window s = surface_' s"
| "held Device s = cameraDevice_' s"
| "held Session s = captureSession_' s"
| "held Request s = captureRequest_' s"
| "held Target s = outputTarget_' s"
| "held Output s = sessionOutput_' s"
| "held Container s = outputContainer_' s"

text \<open>A stream with no native handle and no camera id.\<close>

definition idle :: "CameraStream \<Rightarrow> bool" where
  "idle s \<longleftrightarrow>
     cameraDevice_' s = None \<and> captureSession_' s = None \<and> captureRequest_' s = None \<and>
     outputTarget_' s = None \<and> sessionOutput_' s = None \<and> outputContainer_' s = None \<and>
     surface_' s = None \<and> currentCameraId_' s = []"

text \<open>
  A stream that is streaming or holds nothing. A new stream is such, and \<open>startPreview\<close>,
  \<open>stopPreview\<close> and the capture-start notification keep it so; only a device
  disconnect or error notification leaves a stream that is not streaming and holds
  handles.
\<close>

definition settled :: "CameraStream \<Rightarrow> bool" where
  "settled s \<longleftrightarrow> streaming_' s \<or> idle s"

text \<open>The native calls that \<open>cleanup()\<close> makes on a stream, in its order.\<close>

definition release_events :: "CameraStream \<Rightarrow> native_event list" where
  "release_events s =
     (case captureSession_' s of None \<Rightarrow> [] | Some h \<Rightarrow> [StopRepeating h, Released Session h])
     @ (case cameraDevice_' s of None \<Rightarrow> [] | Some h \<Rightarrow> [Released Device h])
     @ (case captureRequest_' s of None \<Rightarrow> [] | Some h \<Rightarrow> [Released Request h])
     @ (case outputTarget_' s of None \<Rightarrow> [] | Some h \<Rightarrow> [Released Target h])
     @ (case sessionOutput_' s of None \<Rightarrow> [] | Some h \<Rightarrow> [Released Output h])
     @ (case outputContainer_' s of None \<Rightarrow> [] | Some h \<Rightarrow> [Released Container h])
     @ (case surface_' s of None \<Rightarrow> [] | Some h \<Rightarrow> [Released Window h])"

text \<open>The native calls made between a state and a later one.\<close>

definition new_events :: "CameraStream \<Rightarrow> CameraStream \<Rightarrow> native_event list" where
  "new_events s s' = drop (length (trace_' s)) (trace_' s')"

text \<open>
  No step of a \<open>startPreview\<close> call fails: the manager is valid, the surface is not null,
  every native call answers \<open>ACAMERA_OK\<close>, and the device and session pointers are not
  null after their calls (a streaming stream is cleaned up first, so the pointers the
  calls find are then null).
\<close>

definition no_step_fails :: "camera_service \<Rightarrow> handle option \<Rightarrow> CameraStream \<Rightarrow> bool" where
  "no_step_fails cs surface s \<longleftrightarrow>
     manager_' s \<noteq> None \<and> surface \<noteq> None \<and>
     fst (openCamera_r cs) = ACAMERA_OK \<and>
     store_out (snd (openCamera_r cs)) (if streaming_' s then None else cameraDevice_' s) \<noteq> None \<and>
     fst (OutputTarget_create_r cs) = ACAMERA_OK \<and>
     fst (createCaptureRequest_r cs) = ACAMERA_OK \<and>
     addTarget_r cs = ACAMERA_OK \<and>
     fst (Container_create_r cs) = ACAMERA_OK \<and>
     fst (SessionOutput_create_r cs) = ACAMERA_OK \<and>
     Container_add_r cs = ACAMERA_OK \<and>
     fst (createCaptureSession_r cs) = ACAMERA_OK \<and>
     store_out (snd (createCaptureSession_r cs))
       (if streaming_' s then None else captureSession_' s) \<noteq> None \<and>
     setRepeatingRequest_r cs = ACAMERA_OK"

text \<open>
  Invariant of the acquisition steps: the calls made since the trace was \<open>T\<close> handed out
  only resources of the kinds in \<open>K\<close>, and each of them is in its member.
\<close>

definition owns :: "native_event list \<Rightarrow> resource set \<Rightarrow> CameraStream \<Rightarrow> bool" where
  "owns T K s \<longleftrightarrow>
     (\<exists>evs. trace_' s = T @ evs \<and>
        (\<forall>r h. Acquired r h \<in> set evs \<longrightarrow> r \<in> K \<and> held r s = Some h))"

definition tracks ::
  "resource set \<Rightarrow> resource set \<Rightarrow> (CameraStream \<Rightarrow> CameraStream + CameraStream) \<Rightarrow> bool" where
  "tracks K K' f \<longleftrightarrow>
     (\<forall>T s s'. owns T K s \<longrightarrow> (f s = Inl s' \<or> f s = Inr s') \<longrightarrow> owns T K' s')"

subsection \<open>Concrete streams\<close>

text \<open>
  A camera service whose every call succeeds, one that refuses the repeating request,
  a stream that streams camera \<open>0\<close> to the surface 7, and the same stream after the
  device was reported disconnected.
\<close>

definition service_ok :: camera_service where
  "service_ok =
     \<lparr>openCamera_r = (ACAMERA_OK, Stored (Some 10)),
      OutputTarget_create_r = (ACAMERA_OK, Stored (Some 11)),
      createCaptureRequest_r = (ACAMERA_OK, Stored (Some 12)),
      addTarget_r = ACAMERA_OK,
      Container_create_r = (ACAMERA_OK, Stored (Some 13)),
      SessionOutput_create_r = (ACAMERA_OK, Stored (Some 14)),
      Container_add_r = ACAMERA_OK,
      createCaptureSession_r = (ACAMERA_OK, Stored (Some 15)),
      setRepeatingRequest_r = ACAMERA_OK\<rparr>"

definition service_no_repeat :: camera_service where
  "service_no_repeat = service_ok\<lparr>setRepeatingRequest_r := - 1\<rparr>"

definition streaming_stream :: CameraStream where
  "streaming_stream = snd (startPreview service_ok ''0'' (Some 7) None (new_CameraStream (Some 1)))"

definition stale_stream :: CameraStream where
  "stale_stream = onDeviceDisconnected streaming_stream"

text \<open>The streaming stream after one capture-start notification.\<close>

definition one_frame_stream :: CameraStream where
  "one_frame_stream = onCaptureStarted 5000000 4000000 streaming_stream"

section \<open>Camera registry (camera\_data.h, camera\_manager.cpp)\<close>


datatype CameraFacing = Facing_Unknown | Front | Back | External










section \<open>Inertial engine (imu\_data.h, imu\_manager.h, imu\_manager.cpp)\<close>

subsection \<open>The sensor service and the engine object\<close>

text \<open>
  The platform's sensor service is not part of the program. \<open>sensor_service\<close> gives what
  it answers: the catalog (\<open>ASensorManager_getSensorList\<close>), the default sensor of a type
  (\<open>ASensorManager_getDefaultSensor\<close>, null when there is none), and the results of
  \<open>ALooper_prepare\<close> and \<open>ASensorManager_createEventQueue\<close>.
\<close>

record ASensor =
  sensor_type :: int
  sensor_name :: string
  minDelay :: int
  fifoReservedEventCount :: int

record ASensorEvent =
  event_type :: int
  event_timestamp :: "64 word"
  event_x :: real
  event_y :: real
  event_z :: real

record sensor_service =
  sensorList :: "ASensor list"
  defaultSensor :: "int \<Rightarrow> ASensor option"
  ALooper_prepare_r :: "handle option"
  createEventQueue_r :: "handle option"

definition ASENSOR_TYPE_ACCELEROMETER :: int where
  "ASENSOR_TYPE_ACCELEROMETER = 1"

definition ASENSOR_TYPE_GYROSCOPE :: int where
  "ASENSOR_TYPE_GYROSCOPE = 4"

text \<open>\<open>sensorType\<close> holds the value of the \<open>SensorType\<close> enumerator (0 when zero-initialised).\<close>

record ImuSample =
  sample_x :: real
  sample_y :: real
  sample_z :: real
  timestampNs :: "64 word"
  sensorType :: int

record ImuStats =
  accelFrequencyHz :: real
  accelLatencyMs :: real
  gyroFrequencyHz :: real
  gyroLatencyMs :: real

definition zero_sample :: ImuSample where
  "zero_sample = \<lparr>sample_x = 0, sample_y = 0, sample_z = 0, timestampNs = 0, sensorType = 0\<rparr>"

definition zero_stats :: ImuStats where
  "zero_stats =
     \<lparr>accelFrequencyHz = 0, accelLatencyMs = 0, gyroFrequencyHz = 0, gyroLatencyMs = 0\<rparr>"

text \<open>
  The state of \<open>sensorThread_\<close> and of the worker it runs: no thread, a thread that has
  not yet run, a worker inside its event loop, a worker that has returned and is not yet
  joined.
\<close>

datatype thread_state = NoThread | Spawned | Looping | Returned

text \<open>
  \<open>callback_\<close> holds the identity of the registered callback and \<open>called_back_\<close> (ghost)
  the samples it was invoked with. The \<open>int32_t\<close> event counts are 32-bit words, the
  \<open>int64_t\<close> window start and latency totals 64-bit words; \<open>float\<close> members hold the
  real numbers that their values denote.
\<close>

record ImuManager =
  running_' :: bool
  sensorThread_' :: thread_state
  callback_' :: "nat option"
  targetAccelHandle_' :: int
  targetGyroHandle_' :: int
  needsSensorSwitch_' :: bool
  sensorManager_' :: "handle option"
  looper_' :: "handle option"
  eventQueue_' :: "handle option"
  currentAccel_' :: "ASensor option"
  currentGyro_' :: "ASensor option"
  latestAccel_' :: ImuSample
  latestGyro_' :: ImuSample
  statsWindowStart_' :: "64 word"
  accelCount_' :: "32 word"
  gyroCount_' :: "32 word"
  accelLatencyTotal_' :: "64 word"
  gyroLatencyTotal_' :: "64 word"
  accelMinDelay_' :: int
  accelFifo_' :: int
  gyroMinDelay_' :: int
  gyroFifo_' :: int
  called_back_' :: "ImuSample list"

definition new_ImuManager :: "handle option \<Rightarrow> ImuManager" where
  "new_ImuManager mgr =
     \<lparr>running_' = False, sensorThread_' = NoThread, callback_' = None,
      targetAccelHandle_' = - 1, targetGyroHandle_' = - 1, needsSensorSwitch_' = False,
      sensorManager_' = mgr, looper_' = None, eventQueue_' = None,
      currentAccel_' = None, currentGyro_' = None,
      latestAccel_' = zero_sample, latestGyro_' = zero_sample,
      statsWindowStart_' = 0, accelCount_' = 0, gyroCount_' = 0,
      accelLatencyTotal_' = 0, gyroLatencyTotal_' = 0,
      accelMinDelay_' = 0, accelFifo_' = 0, gyroMinDelay_' = 0, gyroFifo_' = 0,
      called_back_' = []\<rparr>"

definition isRunning :: "ImuManager \<Rightarrow> bool" where
  "isRunning s = running_' s"

subsection \<open>The worker thread\<close>

text \<open>
  The registration blocks of \<open>sensorThreadLoop()\<close>: a sensor that was found is registered
  at its minimum delay and its metadata recorded; with no sensor the metadata are zeroed.
\<close>

definition register_accel :: "ImuManager \<Rightarrow> ImuManager" where
  "register_accel s =
     (case currentAccel_' s of
        Some a \<Rightarrow> s\<lparr>accelMinDelay_' := minDelay a, accelFifo_' := fifoReservedEventCount a\<rparr>
      | None \<Rightarrow> s\<lparr>accelMinDelay_' := 0, accelFifo_' := 0\<rparr>)"

definition register_gyro :: "ImuManager \<Rightarrow> ImuManager" where
  "register_gyro s =
     (case currentGyro_' s of
        Some g \<Rightarrow> s\<lparr>gyroMinDelay_' := minDelay g, gyroFifo_' := fifoReservedEventCount g\<rparr>
      | None \<Rightarrow> s\<lparr>gyroMinDelay_' := 0, gyroFifo_' := 0\<rparr>)"

text \<open>
  \<open>sensorThreadLoop()\<close> from its entry to the event loop: looper, event queue, choice of
  the two sensors from the requested handles, registration.
\<close>

definition sensorThreadLoop_enter :: "sensor_service \<Rightarrow> ImuManager \<Rightarrow> ImuManager" where
  "sensorThreadLoop_enter pf s =
     (let s1 = s\<lparr>looper_' := ALooper_prepare_r pf\<rparr> in
      if looper_' s1 = None then s1\<lparr>sensorThread_' := Returned\<rparr>
      else
        let s2 = s1\<lparr>eventQueue_' := createEventQueue_r pf\<rparr> in
        if eventQueue_' s2 = None then s2\<lparr>sensorThread_' := Returned\<rparr>
        else
          let sensorCount = int (length (sensorList pf));
              accelHandle = targetAccelHandle_' s2;
              s3 = s2\<lparr>currentAccel_' :=
                       (if accelHandle \<ge> 0 \<and> accelHandle < sensorCount
                        then Some (sensorList pf ! nat accelHandle)
                        else defaultSensor pf ASENSOR_TYPE_ACCELEROMETER)\<rparr>;
              gyroHandle = targetGyroHandle_' s3;
              s4 = s3\<lparr>currentGyro_' :=
                       (if gyroHandle \<ge> 0 \<and> gyroHandle < sensorCount
                        then Some (sensorList pf ! nat gyroHandle)
                        else defaultSensor pf ASENSOR_TYPE_GYROSCOPE)\<rparr>
          in (register_gyro (register_accel s4))\<lparr>sensorThread_' := Looping\<rparr>)"

text \<open>
  \<open>drainEvents()\<close> over the events that the queue holds, oldest first. The increments
  of the \<open>int32_t\<close> counts and the \<open>int64_t\<close> sums are the word operations.
\<close>

fun drainEvents :: "64 word \<Rightarrow> ASensorEvent list \<Rightarrow> ImuManager \<Rightarrow> ImuManager" where
  "drainEvents now [] s = s"
| "drainEvents now (event # pending) s =
     (let sample = zero_sample\<lparr>timestampNs := event_timestamp event\<rparr>;
          isAccel = (case currentAccel_' s of
                       None \<Rightarrow> False | Some a \<Rightarrow> event_type event = sensor_type a);
          isGyro = (case currentGyro_' s of
                      None \<Rightarrow> False | Some g \<Rightarrow> event_type event = sensor_type g);
          sample' = (if isAccel
                     then sample\<lparr>sample_x := event_x event, sample_y := event_y event,
                            sample_z := event_z event, sensorType := 1\<rparr>
                     else if isGyro
                     then sample\<lparr>sample_x := event_x event, sample_y := event_y event,
                            sample_z := event_z event, sensorType := 4\<rparr>
                     else sample);
          s1 = (if isAccel
                then s\<lparr>latestAccel_' := sample',
                       accelCount_' := accelCount_' s + 1,
                       accelLatencyTotal_' := accelLatencyTotal_' s + (now - event_timestamp event)\<rparr>
                else if isGyro
                then s\<lparr>latestGyro_' := sample',
                       gyroCount_' := gyroCount_' s + 1,
                       gyroLatencyTotal_' := gyroLatencyTotal_' s + (now - event_timestamp event)\<rparr>
                else s);
          s2 = (if callback_' s1 \<noteq> None \<and> (isAccel \<or> isGyro)
                then s1\<lparr>called_back_' := called_back_' s1 @ [sample']\<rparr> else s1)
      in drainEvents now pending s2)"

text \<open>\<open>sensorThreadLoop()\<close> after the event loop.\<close>

definition sensorThreadLoop_exit :: "ImuManager \<Rightarrow> ImuManager" where
  "sensorThreadLoop_exit s =
     s\<lparr>eventQueue_' := None, looper_' := None, currentAccel_' := None,
       currentGyro_' := None, sensorThread_' := Returned\<rparr>"

text \<open>
  \<open>sensorThread_.join()\<close> with \<open>running_\<close> false: a worker that has not run yet runs from
  its entry, finds the loop condition false and leaves; a worker in its loop leaves.
\<close>

definition join_worker :: "sensor_service \<Rightarrow> ImuManager \<Rightarrow> ImuManager" where
  "join_worker pf s =
     (let s1 = (case sensorThread_' s of
                  NoThread \<Rightarrow> s
                | Spawned \<Rightarrow>
                    (let e = sensorThreadLoop_enter pf s
                     in if sensorThread_' e = Looping then sensorThreadLoop_exit e else e)
                | Looping \<Rightarrow> sensorThreadLoop_exit s
                | Returned \<Rightarrow> s)
      in s1\<lparr>sensorThread_' := NoThread\<rparr>)"

subsection \<open>start, stop, switchSensors, getStats\<close>

text \<open>
  \<open>now\<close> is what \<open>getBootTimeNs()\<close> reads inside the call. In \<open>getStats()\<close> the
  \<open>int32_t\<close> counts and the \<open>int64_t\<close> constant \<open>kNsPerSecond\<close> are converted to
  \<open>double\<close> where they meet a \<open>double\<close> operand, and each quotient is rounded to
  \<open>double\<close> before the cast to \<open>float\<close>.
\<close>

definition start :: "64 word \<Rightarrow> nat option \<Rightarrow> ImuManager \<Rightarrow> ImuManager" where
  "start now callback s =
     (if running_' s then s
      else if sensorManager_' s = None then s
      else s\<lparr>callback_' := callback,
             running_' := True,
             statsWindowStart_' := now,
             accelCount_' := 0,
             gyroCount_' := 0,
             accelLatencyTotal_' := 0,
             gyroLatencyTotal_' := 0,
             sensorThread_' := Spawned\<rparr>)"

definition stop :: "sensor_service \<Rightarrow> ImuManager \<Rightarrow> ImuManager" where
  "stop pf s =
     (if \<not> running_' s then s
      else
        let s1 = s\<lparr>running_' := False\<rparr>
        in if sensorThread_' s1 \<noteq> NoThread then join_worker pf s1 else s1)"

definition switchSensors ::
  "64 word \<Rightarrow> sensor_service \<Rightarrow> int \<Rightarrow> int \<Rightarrow> ImuManager \<Rightarrow> ImuManager" where
  "switchSensors now pf accelHandle gyroHandle s =
     (let s1 = s\<lparr>targetAccelHandle_' := accelHandle,
                 targetGyroHandle_' := gyroHandle,
                 needsSensorSwitch_' := True\<rparr>
      in if running_' s1
         then let cb = callback_' s1 in start now cb (stop pf s1)
         else s1)"

definition ImuManager_getStats :: "64 word \<Rightarrow> ImuManager \<Rightarrow> ImuStats \<times> ImuManager" where
  "ImuManager_getStats now s =
     (let dtSeconds = double_div (double_of_int64 (now - statsWindowStart_' s))
                        (double_of_int64 kNsPerSecond);
          stats1 = (if dtSeconds > 0
                    then zero_stats\<lparr>accelFrequencyHz :=
                             float_of_double (double_div (double_of_int32 (accelCount_' s)) dtSeconds),
                           gyroFrequencyHz :=
                             float_of_double (double_div (double_of_int32 (gyroCount_' s)) dtSeconds)\<rparr>
                    else zero_stats);
          stats2 = (if sint (accelCount_' s) > 0
                    then stats1\<lparr>accelLatencyMs :=
                           float_of_double
                             (double_div
                               (double_div (double_of_int64 (accelLatencyTotal_' s))
                                 (double_of_int32 (accelCount_' s)))
                               kNsToMs)\<rparr>
                    else stats1);
          stats3 = (if sint (gyroCount_' s) > 0
                    then stats2\<lparr>gyroLatencyMs :=
                           float_of_double
                             (double_div
                               (double_div (double_of_int64 (gyroLatencyTotal_' s))
                                 (double_of_int32 (gyroCount_' s)))
                               kNsToMs)\<rparr>
                    else stats2)
      in (stats3,
          s\<lparr>statsWindowStart_' := now, accelCount_' := 0, gyroCount_' := 0,
            accelLatencyTotal_' := 0, gyroLatencyTotal_' := 0\<rparr>))"

text \<open>
  \<open>start()\<close> assigns a new thread to \<open>sensorThread_\<close>, which would end the program if
  the member still held a joinable thread. It does so only when \<open>running_\<close> is false, and
  then the member holds no thread: this invariant holds of a new engine and is kept by
  every operation (\<open>thread_joined_when_stopped_kept\<close>), so the model has no such branch.
\<close>

definition thread_joined_when_stopped :: "ImuManager \<Rightarrow> bool" where
  "thread_joined_when_stopped s \<longleftrightarrow> (\<not> running_' s \<longrightarrow> sensorThread_' s = NoThread)"

subsection \<open>A concrete engine\<close>

text \<open>
  A catalog of three sensors with an accelerometer and a gyroscope as defaults, and an
  engine started at time 0 whose worker has drained one accelerometer event.
\<close>

definition accel0 :: ASensor where
  "accel0 = \<lparr>sensor_type = 1, sensor_name = ''accel0'', minDelay = 2000,
              fifoReservedEventCount = 300\<rparr>"

definition gyro0 :: ASensor where
  "gyro0 = \<lparr>sensor_type = 4, sensor_name = ''gyro0'', minDelay = 1000,
             fifoReservedEventCount = 0\<rparr>"

definition accel_uncal :: ASensor where
  "accel_uncal = \<lparr>sensor_type = 35, sensor_name = ''accel_uncal'', minDelay = 5000,
                   fifoReservedEventCount = 0\<rparr>"

definition platform3 :: sensor_service where
  "platform3 =
     \<lparr>sensorList = [accel0, gyro0, accel_uncal],
      defaultSensor = (\<lambda>t. if t = 1 then Some accel0 else if t = 4 then Some gyro0 else None),
      ALooper_prepare_r = Some 20,
      createEventQueue_r = Some 21\<rparr>"

definition accel_event :: ASensorEvent where
  "accel_event = \<lparr>event_type = 1, event_timestamp = 499000000,
                   event_x = 0, event_y = 0, event_z = 39 / 4\<rparr>"

definition looping_engine :: ImuManager where
  "looping_engine = sensorThreadLoop_enter platform3 (start 0 (Some 1) (new_ImuManager (Some 2)))"

definition engine_with_event :: ImuManager where
  "engine_with_event = drainEvents 500000000 [accel_event] looping_engine"

section \<open>Ring buffer (ring\_buffer.h)\<close>

text \<open>
  \<open>RingBuffer<T, Capacity>\<close>. The template parameter \<open>Capacity\<close> is the first argument of
  every operation; the two \<open>static_assert\<close>s make it a positive power of two. \<open>head_\<close> and
  \<open>tail_\<close> are \<open>size_t\<close>, taken as 64 bits wide: the only operation that can wrap is the
  subtraction in \<open>size()\<close>, written out in \<open>size_t_sub\<close>. The atomics are read and written
  in sequence (one thread). The array is a list; it is not initialised by the constructor,
  so a new buffer is given the list that stands for its storage.
\<close>

record 'a RingBuffer =
  buffer_' :: "'a list"
  head_' :: nat
  tail_' :: nat

definition kMask :: "nat \<Rightarrow> nat" where
  "kMask Capacity = Capacity - 1"

definition size_t_sub :: "nat \<Rightarrow> nat \<Rightarrow> nat" where
  "size_t_sub a b = (a + 2 ^ 64 - b) mod 2 ^ 64"

definition new_RingBuffer :: "'a list \<Rightarrow> 'a RingBuffer" where
  "new_RingBuffer storage = \<lparr>buffer_' = storage, head_' = 0, tail_' = 0\<rparr>"

definition push :: "nat \<Rightarrow> 'a \<Rightarrow> 'a RingBuffer \<Rightarrow> bool \<times> 'a RingBuffer" where
  "push Capacity item rb =
     (let currentHead = head_' rb;
          nextHead = (currentHead + 1) AND kMask Capacity
      in if nextHead = tail_' rb then (False, rb)
         else (True, rb\<lparr>buffer_' := (buffer_' rb)[currentHead := item], head_' := nextHead\<rparr>))"

definition pushOverwrite :: "nat \<Rightarrow> 'a \<Rightarrow> 'a RingBuffer \<Rightarrow> 'a RingBuffer" where
  "pushOverwrite Capacity item rb =
     (let currentHead = head_' rb;
          nextHead = (currentHead + 1) AND kMask Capacity;
          rb1 = (if nextHead = tail_' rb
                 then rb\<lparr>tail_' := (tail_' rb + 1) AND kMask Capacity\<rparr> else rb)
      in rb1\<lparr>buffer_' := (buffer_' rb1)[currentHead := item], head_' := nextHead\<rparr>)"

text \<open>\<open>pop(T& item)\<close>: \<open>Some\<close> of what was written to \<open>item\<close> when it returns true.\<close>

definition pop :: "nat \<Rightarrow> 'a RingBuffer \<Rightarrow> 'a option \<times> 'a RingBuffer" where
  "pop Capacity rb =
     (let currentTail = tail_' rb
      in if currentTail = head_' rb then (None, rb)
         else (Some (buffer_' rb ! currentTail),
               rb\<lparr>tail_' := (currentTail + 1) AND kMask Capacity\<rparr>))"

definition empty_rb :: "'a RingBuffer \<Rightarrow> bool" where
  "empty_rb rb \<longleftrightarrow> head_' rb = tail_' rb"

definition size_rb :: "nat \<Rightarrow> 'a RingBuffer \<Rightarrow> nat" where
  "size_rb Capacity rb = size_t_sub (head_' rb) (tail_' rb) AND kMask Capacity"

definition clear :: "'a RingBuffer \<Rightarrow> 'a RingBuffer" where
  "clear rb = rb\<lparr>tail_' := head_' rb\<rparr>"

text \<open>
  The states a buffer of this capacity can be in: the array has \<open>Capacity\<close> slots and both
  indices are inside it. \<open>contents\<close> lists the stored elements, oldest first.
\<close>

definition rb_wf :: "nat \<Rightarrow> 'a RingBuffer \<Rightarrow> bool" where
  "rb_wf Capacity rb \<longleftrightarrow>
     length (buffer_' rb) = Capacity \<and> head_' rb < Capacity \<and> tail_' rb < Capacity"

definition contents :: "nat \<Rightarrow> 'a RingBuffer \<Rightarrow> 'a list" where
  "contents Capacity rb =
     map (\<lambda>i. buffer_' rb ! ((tail_' rb + i) mod Capacity)) [0..<size_rb Capacity rb]"

text \<open>A buffer of capacity 4 after three pushes: it is full.\<close>

definition three_pushed :: "nat RingBuffer" where
  "three_pushed = snd (push 4 3 (snd (push 4 2 (snd (push 4 1 (new_RingBuffer [0, 0, 0, 0]))))))"

section \<open>Properties of the machine arithmetic\<close>

lemma powi_succ: "(2::real) powi (k + 1) = 2 * 2 powi k"
  by (simp add: power_int_add)

lemma powi_less_D:
  assumes "(2::real) powi a < 2 powi b"
  shows "a < b"
proof (rule ccontr)
  assume "\<not> a < b"
  then have "b \<le> a" by simp
  then have "(2::real) powi b \<le> 2 powi a" by (rule power_int_increasing) simp
  with assms show False by simp
qed

lemma floor_bitlen_bounds:
  fixes y :: real
  assumes "1 \<le> y"
  shows "2 ^ nat (bitlen \<lfloor>y\<rfloor> - 1) \<le> y" and "y < 2 ^ nat (bitlen \<lfloor>y\<rfloor>)"
    and "1 \<le> bitlen \<lfloor>y\<rfloor>"
proof -
  let ?m = "\<lfloor>y\<rfloor>"
  from assms have m: "0 < ?m" by simp
  from bitlen_bounds [OF m] have lo: "2 ^ nat (bitlen ?m - 1) \<le> ?m"
    and hi: "?m < 2 ^ nat (bitlen ?m)" by simp_all
  from m show b: "1 \<le> bitlen ?m"
    using bitlen_eq_zero_iff [of ?m] bitlen_nonneg [of ?m] by linarith
  from lo have "real_of_int (2 ^ nat (bitlen ?m - 1)) \<le> real_of_int ?m"
    by (rule of_int_le_iff [THEN iffD2])
  also have "real_of_int ?m \<le> y" by simp
  finally show "(2::real) ^ nat (bitlen ?m - 1) \<le> y" by simp
  from hi have "?m + 1 \<le> 2 ^ nat (bitlen ?m)" by simp
  then have "real_of_int (?m + 1) \<le> real_of_int (2 ^ nat (bitlen ?m))"
    by (rule of_int_le_iff [THEN iffD2])
  then have u: "real_of_int ?m + 1 \<le> 2 ^ nat (bitlen ?m)" by simp
  have "y < real_of_int ?m + 1" by linarith
  with u show "y < (2::real) ^ nat (bitlen ?m)" by linarith
qed

lemma ilog2_bounds:
  assumes "0 < x"
  shows "2 powi ilog2 x \<le> x" and "x < 2 powi (ilog2 x + 1)"
proof -
  have *: "2 powi ilog2 x \<le> x \<and> x < 2 powi (ilog2 x + 1)"
  proof (cases "1 \<le> x")
    case True
    let ?m = "\<lfloor>x\<rfloor>"
    note B = floor_bitlen_bounds [OF True]
    from True have e: "ilog2 x = bitlen ?m - 1" by (simp add: ilog2_def)
    from B(3) have "(2::real) powi (bitlen ?m - 1) = 2 ^ nat (bitlen ?m - 1)"
      "(2::real) powi (bitlen ?m - 1 + 1) = 2 ^ nat (bitlen ?m)"
      by (simp_all add: power_int_def)
    with B(1,2) e show ?thesis by simp
  next
    case False
    let ?y = "1 / x"
    let ?m = "\<lfloor>?y\<rfloor>"
    let ?j = "bitlen ?m - 1"
    from False assms have y1: "1 \<le> ?y" by simp
    note B = floor_bitlen_bounds [OF y1]
    from B(3) have nj: "nat (bitlen ?m) = Suc (nat ?j)" by simp
    have 1: "(2::real) ^ nat ?j \<le> ?y" by (rule B(1))
    have 2: "?y < (2::real) ^ Suc (nat ?j)" using B(2) by (simp only: nj)
    have p: "(0::real) < 2 ^ nat ?j" by simp
    have j0: "0 \<le> ?j" using B(3) by simp
    have a: "(2::real) powi (- ?j - 1) = 1 / 2 ^ Suc (nat ?j)"
    proof -
      have "- ?j - 1 = - int (Suc (nat ?j))" using j0 by simp
      then have "(2::real) powi (- ?j - 1) = 2 powi (- int (Suc (nat ?j)))" by simp
      also have "\<dots> = inverse (2 ^ Suc (nat ?j))"
        by (simp only: power_int_minus power_int_of_nat)
      finally show ?thesis by (simp add: field_simps)
    qed
    have c: "(2::real) powi (- ?j) = 1 / 2 ^ nat ?j"
    proof -
      have "- ?j = - int (nat ?j)" using j0 by simp
      then have "(2::real) powi (- ?j) = 2 powi (- int (nat ?j))" by simp
      also have "\<dots> = inverse (2 ^ nat ?j)"
        by (simp only: power_int_minus power_int_of_nat)
      finally show ?thesis by (simp add: field_simps)
    qed
    show ?thesis
    proof (cases "?y = 2 ^ nat ?j")
      case True
      with False have e: "ilog2 x = - ?j" by (simp add: ilog2_def Let_def)
      from True have "1 / ?y = 1 / 2 ^ nat ?j" by simp
      then have x: "x = 1 / 2 ^ nat ?j" by simp
      have "(2::real) powi (- ?j + 1) = 2 * 2 powi (- ?j)"
        by (rule powi_succ)
      also have "\<dots> = 2 * x" using x c by (simp only:)
      finally have "(2::real) powi (- ?j + 1) = 2 * x" .
      with assms have "x < (2::real) powi (- ?j + 1)" by (simp only:)
      moreover have "2 powi (- ?j) \<le> x" using x c by simp
      ultimately show ?thesis using e by simp
    next
      case neq: False
      with False have e: "ilog2 x = - ?j - 1" by (simp add: ilog2_def Let_def)
      from neq 1 have lt1: "(2::real) ^ nat ?j < ?y" by simp
      from 2 assms have "1 / 2 ^ Suc (nat ?j) < x"
        by (simp add: field_simps)
      moreover from lt1 assms p have "x < 1 / 2 ^ nat ?j"
        by (simp add: field_simps)
      ultimately show ?thesis using e a c by simp
    qed
  qed
  from * show "2 powi ilog2 x \<le> x" and "x < 2 powi (ilog2 x + 1)" by simp_all
qed


lemma round_even_cases: "round_even y = \<lfloor>y\<rfloor> \<or> round_even y = \<lfloor>y\<rfloor> + 1"
  by (simp add: round_even_def Let_def)

lemma round_even_ge: "of_int k \<le> y \<Longrightarrow> k \<le> round_even y"
proof -
  assume "of_int k \<le> y"
  then have "k \<le> \<lfloor>y\<rfloor>" by (simp add: le_floor_iff)
  with round_even_cases [of y] show ?thesis by linarith
qed

lemma round_even_of_int: "round_even (of_int k) = k"
  by (simp add: round_even_def)

lemma fp_round_zero: "fp_round p emin 0 = 0"
  by (simp add: fp_round_def)

lemma fp_round_nonpos:
  assumes "x \<le> 0"
  shows "fp_round p emin x \<le> 0"
proof (cases "x = 0")
  case True
  then show ?thesis by (simp add: fp_round_zero)
next
  case False
  define ulp :: real where "ulp = 2 powi (max emin (ilog2 \<bar>x\<bar>) - int p + 1)"
  have u: "0 < ulp" by (simp add: ulp_def)
  then have "(of_int 0 :: real) \<le> \<bar>x\<bar> / ulp" by simp
  then have "0 \<le> round_even (\<bar>x\<bar> / ulp)" by (rule round_even_ge)
  then have "0 \<le> real_of_int (round_even (\<bar>x\<bar> / ulp)) * ulp" using u by simp
  moreover from assms False have "sgn x = - 1" by simp
  moreover from False have "fp_round p emin x = sgn x * (of_int (round_even (\<bar>x\<bar> / ulp)) * ulp)"
    by (simp add: fp_round_def Let_def ulp_def)
  ultimately show ?thesis by simp
qed

lemma fp_round_ge_powi:
  assumes p: "0 < p" and j: "emin \<le> j" and x: "2 powi j \<le> x"
  shows "2 powi j \<le> fp_round p emin x"
proof -
  have pos: "0 < x" using x by (rule less_le_trans [rotated]) simp
  then have ax: "\<bar>x\<bar> = x" and sg: "sgn x = 1" and nz: "x \<noteq> 0" by simp_all
  define e where "e = ilog2 x"
  from ilog2_bounds [OF pos] have lo: "2 powi e \<le> x" and hi: "x < 2 powi (e + 1)"
    by (simp_all add: e_def)
  from x hi have "(2::real) powi j < 2 powi (e + 1)" by linarith
  then have "j < e + 1" by (rule powi_less_D)
  then have je: "j \<le> e" by simp
  with j have m: "max emin e = e" by simp
  define ulp :: real where "ulp = 2 powi (e - int p + 1)"
  have u: "0 < ulp" by (simp add: ulp_def)
  have fr: "fp_round p emin x = of_int (round_even (x / ulp)) * ulp"
    using nz by (simp add: fp_round_def Let_def ax sg e_def [symmetric] m ulp_def)
  have split: "(2::real) powi e = 2 ^ (p - 1) * ulp"
  proof -
    have "e = int (p - 1) + (e - int p + 1)" using p by simp
    then have "(2::real) powi e = 2 powi (int (p - 1) + (e - int p + 1))" by simp
    also have "\<dots> = 2 powi int (p - 1) * 2 powi (e - int p + 1)"
      by (rule power_int_add) simp
    finally show ?thesis by (simp add: ulp_def)
  qed
  from lo split have "2 ^ (p - 1) * ulp \<le> x" by simp
  with u have "(2::real) ^ (p - 1) \<le> x / ulp" by (simp add: pos_le_divide_eq)
  then have "real_of_int (2 ^ (p - 1)) \<le> x / ulp" by simp
  then have "2 ^ (p - 1) \<le> round_even (x / ulp)" by (rule round_even_ge)
  then have "real_of_int (2 ^ (p - 1)) \<le> real_of_int (round_even (x / ulp))"
    by (rule of_int_le_iff [THEN iffD2])
  then have "2 ^ (p - 1) * ulp \<le> real_of_int (round_even (x / ulp)) * ulp"
    using u by simp
  with split fr have "2 powi e \<le> fp_round p emin x" by simp
  moreover from je have "(2::real) powi j \<le> 2 powi e"
    by (rule power_int_increasing) simp
  ultimately show ?thesis by linarith
qed

text \<open>Rounding does not carry a value beyond a power of two of the normal range above it.\<close>

lemma powi_le_D:
  assumes "(2::real) powi a \<le> 2 powi b"
  shows "a \<le> b"
proof (rule ccontr)
  assume "\<not> a \<le> b"
  then have "b < a" by simp
  then have "(2::real) powi b < 2 powi a" by (rule power_int_strict_increasing) simp
  with assms show False by simp
qed

lemma round_even_le: "y \<le> of_int k \<Longrightarrow> round_even y \<le> k"
proof -
  assume y: "y \<le> of_int k"
  then have fk: "\<lfloor>y\<rfloor> \<le> k" by (simp add: floor_le_iff)
  show ?thesis
  proof (cases "\<lfloor>y\<rfloor> = k")
    case True
    with y have "y = of_int \<lfloor>y\<rfloor>" using of_int_floor_le [of y] by linarith
    then have "round_even y = \<lfloor>y\<rfloor>" by (metis round_even_of_int)
    with True show ?thesis by simp
  next
    case False
    with fk have "\<lfloor>y\<rfloor> + 1 \<le> k" by simp
    with round_even_cases [of y] fk show ?thesis by linarith
  qed
qed

lemma fp_round_abs_le_powi:
  assumes p: "0 < p" and j: "emin \<le> j" and x: "\<bar>x\<bar> \<le> 2 powi j"
  shows "\<bar>fp_round p emin x\<bar> \<le> 2 powi j"
proof (cases "x = 0")
  case True
  then show ?thesis by (simp add: fp_round_zero)
next
  case False
  define a where "a = \<bar>x\<bar>"
  from False have pos: "0 < a" by (simp add: a_def)
  define e where "e = max emin (ilog2 a)"
  from ilog2_bounds(1) [OF pos] x have "(2::real) powi ilog2 a \<le> 2 powi j"
    by (simp add: a_def)
  then have "ilog2 a \<le> j" by (rule powi_le_D)
  with j have ej: "e \<le> j" by (simp add: e_def)
  define ulp :: real where "ulp = 2 powi (e - int p + 1)"
  have u: "0 < ulp" by (simp add: ulp_def)
  define n where "n = nat (j - e + int p - 1)"
  have split: "(2::real) powi j = 2 ^ n * ulp"
  proof -
    have "j = int n + (e - int p + 1)" using ej p by (simp add: n_def)
    then have "(2::real) powi j = 2 powi (int n + (e - int p + 1))" by simp
    also have "\<dots> = 2 powi int n * 2 powi (e - int p + 1)"
      by (rule power_int_add) simp
    finally show ?thesis by (simp add: ulp_def)
  qed
  from x split have "a \<le> 2 ^ n * ulp" by (simp add: a_def)
  with u have "a / ulp \<le> 2 ^ n" by (simp add: pos_divide_le_eq)
  then have "a / ulp \<le> real_of_int (2 ^ n)" by simp
  then have up: "round_even (a / ulp) \<le> 2 ^ n" by (rule round_even_le)
  have "real_of_int 0 \<le> a / ulp" using pos u by simp
  then have lo: "0 \<le> round_even (a / ulp)" by (rule round_even_ge)
  from up have "real_of_int (round_even (a / ulp)) \<le> real_of_int (2 ^ n)"
    by (rule of_int_le_iff [THEN iffD2])
  then have "real_of_int (round_even (a / ulp)) * ulp \<le> 2 ^ n * ulp"
    using u by simp
  moreover have "fp_round p emin x = sgn x * (real_of_int (round_even (a / ulp)) * ulp)"
    using False by (simp add: fp_round_def Let_def a_def e_def ulp_def)
  moreover have "\<bar>sgn x * (real_of_int (round_even (a / ulp)) * ulp)\<bar>
      = real_of_int (round_even (a / ulp)) * ulp"
    using False lo u by (simp add: abs_mult abs_sgn_eq)
  ultimately show ?thesis using split by simp
qed

text \<open>An integer of fewer than \<open>p\<close> bits is not changed by rounding.\<close>

lemma fp_round_of_int:
  assumes p: "0 < p" and emin: "emin \<le> 0" and k: "\<bar>k\<bar> < 2 ^ p"
  shows "fp_round p emin (real_of_int k) = real_of_int k"
proof (cases "k = 0")
  case True
  then show ?thesis by (simp add: fp_round_zero)
next
  case False
  define x where "x = \<bar>real_of_int k\<bar>"
  from False have x1: "1 \<le> x" by (simp add: x_def)
  then have pos: "0 < x" by simp
  define e where "e = ilog2 x"
  from ilog2_bounds [OF pos] have lo: "2 powi e \<le> x" and hi: "x < 2 powi (e + 1)"
    by (simp_all add: e_def)
  from x1 hi have "(2::real) powi (- 1 + 1) < 2 powi (e + 1)" by simp
  then have "- 1 + 1 < e + 1" by (rule powi_less_D)
  then have e0: "0 \<le> e" by simp
  from k have "real_of_int \<bar>k\<bar> < real_of_int (2 ^ p)" by (rule of_int_less_iff [THEN iffD2])
  then have "x < 2 ^ p" by (simp add: x_def)
  then have "x < 2 powi int p" by simp
  with lo have "(2::real) powi e < 2 powi int p" by linarith
  then have ep: "e < int p" by (rule powi_less_D)
  from e0 emin have m: "max emin e = e" by simp
  define n where "n = nat (int p - 1 - e)"
  have n: "e - int p + 1 = - int n" using ep by (simp add: n_def)
  have ulp: "(2::real) powi (e - int p + 1) = inverse (2 ^ n)"
    by (simp only: n power_int_minus power_int_of_nat)
  have "x / inverse (2 ^ n) = real_of_int (\<bar>k\<bar> * 2 ^ n)"
    by (simp add: x_def field_simps)
  then have "round_even (x / inverse (2 ^ n)) = \<bar>k\<bar> * 2 ^ n"
    by (simp only: round_even_of_int)
  then have "real_of_int (round_even (x / inverse (2 ^ n))) * inverse (2 ^ n) = x"
    by (simp add: x_def field_simps)
  moreover have "fp_round p emin (real_of_int k)
      = sgn (real_of_int k) * (real_of_int (round_even (x / inverse (2 ^ n))) * inverse (2 ^ n))"
    using False
    by (simp add: fp_round_def Let_def x_def [symmetric] e_def [symmetric] m ulp)
  ultimately have "fp_round p emin (real_of_int k) = sgn (real_of_int k) * x" by simp
  then show ?thesis by (simp add: x_def sgn_mult_abs)
qed

lemma round_double_of_int:
  assumes "\<bar>k\<bar> < 9007199254740992"
  shows "round_double (real_of_int k) = real_of_int k"
  unfolding round_double_def using assms by (intro fp_round_of_int) simp_all

text \<open>Every \<open>int32_t\<close> converts to \<open>double\<close> without rounding.\<close>

lemma sint32_bound: "\<bar>sint (w :: 32 word)\<bar> < 9007199254740992"
  using sint_ge [of w] sint_lt [of w] by simp

lemma double_of_int32_exact: "double_of_int32 w = real_of_int (sint w)"
  unfolding double_of_int32_def by (rule round_double_of_int) (rule sint32_bound)

lemma round_double_zero: "round_double 0 = 0"
  by (simp add: round_double_def fp_round_zero)

lemma round_float_zero: "round_float 0 = 0"
  by (simp add: round_float_def fp_round_zero)

text \<open>The difference of two non-negative \<open>int64_t\<close> values does not wrap.\<close>

lemma sint_diff_nonneg:
  fixes a b :: "'a::len word"
  assumes "0 \<le> sint b" and "0 \<le> sint a"
  shows "sint (a - b) = sint a - sint b"
proof -
  have "sint a < 2 ^ (LENGTH('a) - 1)" "sint b < 2 ^ (LENGTH('a) - 1)" by (rule sint_lt)+
  with assms have "- (2 ^ (LENGTH('a) - 1)) \<le> sint a - sint b"
    and "sint a - sint b < 2 ^ (LENGTH('a) - 1)" by simp_all
  then have "signed_take_bit (LENGTH('a) - 1) (sint a - sint b) = sint a - sint b"
    by (rule signed_take_bit_int_eq_self)
  then show ?thesis by (simp only: sint_word_diff)
qed

text \<open>
  The two rounding functions keep the sign of what they round and do not take a value
  at or above a power of two of the normal range below it.
\<close>

lemma round_double_nonpos: "x \<le> 0 \<Longrightarrow> round_double x \<le> 0"
  unfolding round_double_def by (rule fp_round_nonpos)

lemma round_double_ge_powi:
  assumes "- 1022 \<le> j" and "2 powi j \<le> x"
  shows "2 powi j \<le> round_double x"
  unfolding round_double_def by (rule fp_round_ge_powi [OF _ assms]) simp

text \<open>Signed subtraction of a smaller positive value from a larger one does not wrap.\<close>

lemma sint_diff_pos:
  fixes a b :: "'a::len word"
  assumes "0 < sint b" and "sint b < sint a"
  shows "sint (a - b) = sint a - sint b"
proof -
  have "sint a < 2 ^ (LENGTH('a) - 1)" by (rule sint_lt)
  with assms have "- (2 ^ (LENGTH('a) - 1)) \<le> sint a - sint b"
    and "sint a - sint b < 2 ^ (LENGTH('a) - 1)" by simp_all
  then have "signed_take_bit (LENGTH('a) - 1) (sint a - sint b) = sint a - sint b"
    by (rule signed_take_bit_int_eq_self)
  then show ?thesis by (simp only: sint_word_diff)
qed

text \<open>\<open>kNsPerSecond\<close> converts to \<open>double\<close> without rounding.\<close>

lemma round_double_kNsPerSecond: "round_double 1000000000 = 1000000000"
  by code_simp

lemma double_of_kNsPerSecond: "double_of_int64 kNsPerSecond = 1000000000"
  by (simp add: double_of_int64_def kNsPerSecond_def round_double_kNsPerSecond)

text \<open>
  A number of nanoseconds converted to \<open>double\<close> and divided by \<open>kNsPerSecond\<close> is
  positive exactly when the number is: the quotient of one nanosecond is not rounded
  to zero. The rates and latencies computed from such quotients stay far below the
  largest finite \<open>float\<close>.
\<close>

lemma round_double_abs_le:
  assumes "- 1022 \<le> j" and "\<bar>x\<bar> \<le> 2 powi j"
  shows "\<bar>round_double x\<bar> \<le> 2 powi j"
  unfolding round_double_def by (rule fp_round_abs_le_powi [OF _ assms]) simp

lemma round_float_abs_le:
  assumes "- 126 \<le> j" and "\<bar>x\<bar> \<le> 2 powi j"
  shows "\<bar>round_float x\<bar> \<le> 2 powi j"
  unfolding round_float_def by (rule fp_round_abs_le_powi [OF _ assms]) simp

lemma seconds_ge:
  assumes "0 < d"
  shows "2 powi (- 30) \<le> round_double (round_double (real_of_int d) / 1000000000)"
proof -
  from assms have "(2::real) powi 0 \<le> real_of_int d" by simp
  then have "2 powi 0 \<le> round_double (real_of_int d)"
    by (rule round_double_ge_powi [rotated]) simp
  then have "1 / 1000000000 \<le> round_double (real_of_int d) / 1000000000" by simp
  moreover have "(2::real) powi (- 30) \<le> 1 / 1000000000"
    by (simp add: power_int_minus field_simps)
  ultimately have "2 powi (- 30) \<le> round_double (real_of_int d) / 1000000000" by linarith
  then show ?thesis
    by (rule round_double_ge_powi [rotated]) simp
qed

lemma inverse_le_powi:
  assumes "2 powi (- 30) \<le> (x::real)"
  shows "\<bar>1 / x\<bar> \<le> 2 powi 30"
proof -
  have p: "(0::real) < 2 powi (- 30)" by simp
  with assms have x: "0 < x" by linarith
  from assms p have "1 / x \<le> 1 / 2 powi (- 30)"
    by (intro divide_left_mono) simp_all
  also have "1 / 2 powi (- 30) = (2::real) powi 30"
    by (simp add: power_int_minus)
  finally show ?thesis using x by simp
qed

lemma rate_range:
  assumes "0 < d"
  shows "\<bar>round_float (round_double
      (1 / round_double (round_double (real_of_int d) / 1000000000)))\<bar> \<le> 2 powi 30"
proof -
  from seconds_ge [OF assms]
  have "\<bar>1 / round_double (round_double (real_of_int d) / 1000000000)\<bar> \<le> 2 powi 30"
    by (rule inverse_le_powi)
  then have "\<bar>round_double (1 / round_double (round_double (real_of_int d) / 1000000000))\<bar>
      \<le> 2 powi 30"
    by (rule round_double_abs_le [rotated]) simp
  then show ?thesis
    by (rule round_float_abs_le [rotated]) simp
qed

lemma sint64_abs: "\<bar>real_of_int (sint (w :: 64 word))\<bar> \<le> 2 powi 63"
proof -
  have "- (2 ^ 63) \<le> sint w" "sint w < 2 ^ 63"
    using sint_ge [of w] sint_lt [of w] by simp_all
  then have "\<bar>sint w\<bar> \<le> 2 ^ 63" by simp
  then have "real_of_int \<bar>sint w\<bar> \<le> real_of_int (2 ^ 63)"
    by (rule of_int_le_iff [THEN iffD2])
  then show ?thesis by simp
qed

lemma sint32_abs: "\<bar>real_of_int (sint (w :: 32 word))\<bar> \<le> 2 powi 31"
proof -
  have "- (2 ^ 31) \<le> sint w" "sint w < 2 ^ 31"
    using sint_ge [of w] sint_lt [of w] by simp_all
  then have "\<bar>sint w\<bar> \<le> 2 ^ 31" by simp
  then have "real_of_int \<bar>sint w\<bar> \<le> real_of_int (2 ^ 31)"
    by (rule of_int_le_iff [THEN iffD2])
  then show ?thesis by simp
qed

lemma int64_double_range: "\<bar>round_double (real_of_int (sint (w :: 64 word)))\<bar> \<le> 2 powi 63"
  by (rule round_double_abs_le [OF _ sint64_abs]) simp

lemma abs_div_ge_one:
  fixes a b :: real
  assumes "\<bar>a\<bar> \<le> c" and "1 \<le> b"
  shows "\<bar>a / b\<bar> \<le> c"
proof -
  from assms(2) have "\<bar>a / b\<bar> = \<bar>a\<bar> / b" by simp
  also from assms(2) have "\<bar>a\<bar> / b \<le> \<bar>a\<bar> / 1"
    by (intro divide_left_mono) simp_all
  finally show ?thesis using assms(1) by simp
qed

lemma latency_range:
  "\<bar>round_float (round_double (round_double (real_of_int (sint (w :: 64 word))) / 1000000))\<bar>
     \<le> 2 powi 63"
proof -
  have "\<bar>round_double (real_of_int (sint w)) / 1000000\<bar> \<le> 2 powi 63"
    by (rule abs_div_ge_one [OF int64_double_range]) simp
  then have "\<bar>round_double (round_double (real_of_int (sint w)) / 1000000)\<bar> \<le> 2 powi 63"
    by (rule round_double_abs_le [rotated]) simp
  then show ?thesis
    by (rule round_float_abs_le [rotated]) simp
qed

lemma mean_latency_range:
  assumes "0 < sint (c :: 32 word)"
  shows "\<bar>round_float (round_double (round_double
      (round_double (real_of_int (sint (w :: 64 word))) / real_of_int (sint c)) / 1000000))\<bar>
     \<le> 2 powi 63"
proof -
  from assms have "1 \<le> sint c" by simp
  then have "real_of_int 1 \<le> real_of_int (sint c)" by (rule of_int_le_iff [THEN iffD2])
  then have "1 \<le> real_of_int (sint c)" by (simp only: of_int_1)
  with int64_double_range
  have "\<bar>round_double (real_of_int (sint w)) / real_of_int (sint c)\<bar> \<le> 2 powi 63"
    by (rule abs_div_ge_one)
  then have "\<bar>round_double (round_double (real_of_int (sint w)) / real_of_int (sint c))\<bar>
      \<le> 2 powi 63"
    by (rule round_double_abs_le [rotated]) simp
  then have "\<bar>round_double (round_double (real_of_int (sint w)) / real_of_int (sint c))
      / 1000000\<bar> \<le> 2 powi 63"
    by (rule abs_div_ge_one) simp
  then have "\<bar>round_double (round_double (round_double (real_of_int (sint w))
      / real_of_int (sint c)) / 1000000)\<bar> \<le> 2 powi 63"
    by (rule round_double_abs_le [rotated]) simp
  then show ?thesis
    by (rule round_float_abs_le [rotated]) simp
qed

lemma frequency_range:
  assumes "2 powi (- 30) \<le> dt"
  shows "\<bar>round_float (round_double (real_of_int (sint (c :: 32 word)) / dt))\<bar> \<le> 2 powi 61"
proof -
  have "\<bar>real_of_int (sint c) / dt\<bar> = \<bar>real_of_int (sint c)\<bar> * \<bar>1 / dt\<bar>"
    by (simp add: abs_mult [symmetric])
  also have "\<dots> \<le> 2 powi 31 * 2 powi 30"
    by (intro mult_mono sint32_abs inverse_le_powi [OF assms]) simp_all
  also have "\<dots> = (2::real) powi 61"
    by (simp add: power_int_add [symmetric])
  finally have "\<bar>real_of_int (sint c) / dt\<bar> \<le> 2 powi 61" .
  then have "\<bar>round_double (real_of_int (sint c) / dt)\<bar> \<le> 2 powi 61"
    by (rule round_double_abs_le [rotated]) simp
  then show ?thesis
    by (rule round_float_abs_le [rotated]) simp
qed

lemma seconds_pos:
  assumes "0 < d"
  shows "0 < double_div (round_double (real_of_int d)) 1000000000"
proof -
  have "(0::real) < 2 powi (- 30)" by simp
  with seconds_ge [OF assms] show ?thesis unfolding double_div_def by linarith
qed

lemma seconds_nonpos:
  assumes "d \<le> 0"
  shows "double_div (round_double (real_of_int d)) 1000000000 \<le> 0"
proof -
  from assms have "round_double (real_of_int d) \<le> 0" by (intro round_double_nonpos) simp
  then have "round_double (real_of_int d) / 1000000000 \<le> 0" by simp
  then show ?thesis unfolding double_div_def by (rule round_double_nonpos)
qed

lemma seconds_pos_iff:
  "0 < double_div (round_double (real_of_int d)) 1000000000 \<longleftrightarrow> 0 < d"
  using seconds_pos [of d] seconds_nonpos [of d] by linarith

section \<open>Properties of the camera stream\<close>

subsection \<open>cleanup\<close>

lemma release_session_simps [simp]:
  "manager_' (release_session s) = manager_' s"
  "streaming_' (release_session s) = streaming_' s"
  "currentCameraId_' (release_session s) = currentCameraId_' s"
  "cameraDevice_' (release_session s) = cameraDevice_' s"
  "captureSession_' (release_session s) = None"
  "outputContainer_' (release_session s) = outputContainer_' s"
  "sessionOutput_' (release_session s) = sessionOutput_' s"
  "outputTarget_' (release_session s) = outputTarget_' s"
  "captureRequest_' (release_session s) = captureRequest_' s"
  "surface_' (release_session s) = surface_' s"
  "statsCallback_' (release_session s) = statsCallback_' s"
  "frameCount_' (release_session s) = frameCount_' s"
  "droppedFrames_' (release_session s) = droppedFrames_' s"
  "prevFrameTimestampNs_' (release_session s) = prevFrameTimestampNs_' s"
  "lastFrameRateHz_' (release_session s) = lastFrameRateHz_' s"
  "lastLatencyMs_' (release_session s) = lastLatencyMs_' s"
  "lastCallbackTimeNs_' (release_session s) = lastCallbackTimeNs_' s"
  "trace_' (release_session s) = trace_' s @ (case captureSession_' s of None \<Rightarrow> [] | Some h \<Rightarrow> [StopRepeating h, Released Session h])"
  "delivered_' (release_session s) = delivered_' s"
  by (simp_all add: release_session_def split: option.splits)

lemma release_device_simps [simp]:
  "manager_' (release_device s) = manager_' s"
  "streaming_' (release_device s) = streaming_' s"
  "currentCameraId_' (release_device s) = currentCameraId_' s"
  "cameraDevice_' (release_device s) = None"
  "captureSession_' (release_device s) = captureSession_' s"
  "outputContainer_' (release_device s) = outputContainer_' s"
  "sessionOutput_' (release_device s) = sessionOutput_' s"
  "outputTarget_' (release_device s) = outputTarget_' s"
  "captureRequest_' (release_device s) = captureRequest_' s"
  "surface_' (release_device s) = surface_' s"
  "statsCallback_' (release_device s) = statsCallback_' s"
  "frameCount_' (release_device s) = frameCount_' s"
  "droppedFrames_' (release_device s) = droppedFrames_' s"
  "prevFrameTimestampNs_' (release_device s) = prevFrameTimestampNs_' s"
  "lastFrameRateHz_' (release_device s) = lastFrameRateHz_' s"
  "lastLatencyMs_' (release_device s) = lastLatencyMs_' s"
  "lastCallbackTimeNs_' (release_device s) = lastCallbackTimeNs_' s"
  "trace_' (release_device s) = trace_' s @ (case cameraDevice_' s of None \<Rightarrow> [] | Some h \<Rightarrow> [Released Device h])"
  "delivered_' (release_device s) = delivered_' s"
  by (simp_all add: release_device_def split: option.splits)

lemma release_request_simps [simp]:
  "manager_' (release_request s) = manager_' s"
  "streaming_' (release_request s) = streaming_' s"
  "currentCameraId_' (release_request s) = currentCameraId_' s"
  "cameraDevice_' (release_request s) = cameraDevice_' s"
  "captureSession_' (release_request s) = captureSession_' s"
  "outputContainer_' (release_request s) = outputContainer_' s"
  "sessionOutput_' (release_request s) = sessionOutput_' s"
  "outputTarget_' (release_request s) = outputTarget_' s"
  "captureRequest_' (release_request s) = None"
  "surface_' (release_request s) = surface_' s"
  "statsCallback_' (release_request s) = statsCallback_' s"
  "frameCount_' (release_request s) = frameCount_' s"
  "droppedFrames_' (release_request s) = droppedFrames_' s"
  "prevFrameTimestampNs_' (release_request s) = prevFrameTimestampNs_' s"
  "lastFrameRateHz_' (release_request s) = lastFrameRateHz_' s"
  "lastLatencyMs_' (release_request s) = lastLatencyMs_' s"
  "lastCallbackTimeNs_' (release_request s) = lastCallbackTimeNs_' s"
  "trace_' (release_request s) = trace_' s @ (case captureRequest_' s of None \<Rightarrow> [] | Some h \<Rightarrow> [Released Request h])"
  "delivered_' (release_request s) = delivered_' s"
  by (simp_all add: release_request_def split: option.splits)

lemma release_target_simps [simp]:
  "manager_' (release_target s) = manager_' s"
  "streaming_' (release_target s) = streaming_' s"
  "currentCameraId_' (release_target s) = currentCameraId_' s"
  "cameraDevice_' (release_target s) = cameraDevice_' s"
  "captureSession_' (release_target s) = captureSession_' s"
  "outputContainer_' (release_target s) = outputContainer_' s"
  "sessionOutput_' (release_target s) = sessionOutput_' s"
  "outputTarget_' (release_target s) = None"
  "captureRequest_' (release_target s) = captureRequest_' s"
  "surface_' (release_target s) = surface_' s"
  "statsCallback_' (release_target s) = statsCallback_' s"
  "frameCount_' (release_target s) = frameCount_' s"
  "droppedFrames_' (release_target s) = droppedFrames_' s"
  "prevFrameTimestampNs_' (release_target s) = prevFrameTimestampNs_' s"
  "lastFrameRateHz_' (release_target s) = lastFrameRateHz_' s"
  "lastLatencyMs_' (release_target s) = lastLatencyMs_' s"
  "lastCallbackTimeNs_' (release_target s) = lastCallbackTimeNs_' s"
  "trace_' (release_target s) = trace_' s @ (case outputTarget_' s of None \<Rightarrow> [] | Some h \<Rightarrow> [Released Target h])"
  "delivered_' (release_target s) = delivered_' s"
  by (simp_all add: release_target_def split: option.splits)

lemma release_output_simps [simp]:
  "manager_' (release_output s) = manager_' s"
  "streaming_' (release_output s) = streaming_' s"
  "currentCameraId_' (release_output s) = currentCameraId_' s"
  "cameraDevice_' (release_output s) = cameraDevice_' s"
  "captureSession_' (release_output s) = captureSession_' s"
  "outputContainer_' (release_output s) = outputContainer_' s"
  "sessionOutput_' (release_output s) = None"
  "outputTarget_' (release_output s) = outputTarget_' s"
  "captureRequest_' (release_output s) = captureRequest_' s"
  "surface_' (release_output s) = surface_' s"
  "statsCallback_' (release_output s) = statsCallback_' s"
  "frameCount_' (release_output s) = frameCount_' s"
  "droppedFrames_' (release_output s) = droppedFrames_' s"
  "prevFrameTimestampNs_' (release_output s) = prevFrameTimestampNs_' s"
  "lastFrameRateHz_' (release_output s) = lastFrameRateHz_' s"
  "lastLatencyMs_' (release_output s) = lastLatencyMs_' s"
  "lastCallbackTimeNs_' (release_output s) = lastCallbackTimeNs_' s"
  "trace_' (release_output s) = trace_' s @ (case sessionOutput_' s of None \<Rightarrow> [] | Some h \<Rightarrow> [Released Output h])"
  "delivered_' (release_output s) = delivered_' s"
  by (simp_all add: release_output_def split: option.splits)

lemma release_container_simps [simp]:
  "manager_' (release_container s) = manager_' s"
  "streaming_' (release_container s) = streaming_' s"
  "currentCameraId_' (release_container s) = currentCameraId_' s"
  "cameraDevice_' (release_container s) = cameraDevice_' s"
  "captureSession_' (release_container s) = captureSession_' s"
  "outputContainer_' (release_container s) = None"
  "sessionOutput_' (release_container s) = sessionOutput_' s"
  "outputTarget_' (release_container s) = outputTarget_' s"
  "captureRequest_' (release_container s) = captureRequest_' s"
  "surface_' (release_container s) = surface_' s"
  "statsCallback_' (release_container s) = statsCallback_' s"
  "frameCount_' (release_container s) = frameCount_' s"
  "droppedFrames_' (release_container s) = droppedFrames_' s"
  "prevFrameTimestampNs_' (release_container s) = prevFrameTimestampNs_' s"
  "lastFrameRateHz_' (release_container s) = lastFrameRateHz_' s"
  "lastLatencyMs_' (release_container s) = lastLatencyMs_' s"
  "lastCallbackTimeNs_' (release_container s) = lastCallbackTimeNs_' s"
  "trace_' (release_container s) = trace_' s @ (case outputContainer_' s of None \<Rightarrow> [] | Some h \<Rightarrow> [Released Container h])"
  "delivered_' (release_container s) = delivered_' s"
  by (simp_all add: release_container_def split: option.splits)

lemma release_surface_simps [simp]:
  "manager_' (release_surface s) = manager_' s"
  "streaming_' (release_surface s) = streaming_' s"
  "currentCameraId_' (release_surface s) = currentCameraId_' s"
  "cameraDevice_' (release_surface s) = cameraDevice_' s"
  "captureSession_' (release_surface s) = captureSession_' s"
  "outputContainer_' (release_surface s) = outputContainer_' s"
  "sessionOutput_' (release_surface s) = sessionOutput_' s"
  "outputTarget_' (release_surface s) = outputTarget_' s"
  "captureRequest_' (release_surface s) = captureRequest_' s"
  "surface_' (release_surface s) = None"
  "statsCallback_' (release_surface s) = statsCallback_' s"
  "frameCount_' (release_surface s) = frameCount_' s"
  "droppedFrames_' (release_surface s) = droppedFrames_' s"
  "prevFrameTimestampNs_' (release_surface s) = prevFrameTimestampNs_' s"
  "lastFrameRateHz_' (release_surface s) = lastFrameRateHz_' s"
  "lastLatencyMs_' (release_surface s) = lastLatencyMs_' s"
  "lastCallbackTimeNs_' (release_surface s) = lastCallbackTimeNs_' s"
  "trace_' (release_surface s) = trace_' s @ (case surface_' s of None \<Rightarrow> [] | Some h \<Rightarrow> [Released Window h])"
  "delivered_' (release_surface s) = delivered_' s"
  by (simp_all add: release_surface_def split: option.splits)

lemma cleanup_simps [simp]:
  "manager_' (cleanup s) = manager_' s"
  "streaming_' (cleanup s) = False"
  "currentCameraId_' (cleanup s) = []"
  "cameraDevice_' (cleanup s) = None"
  "captureSession_' (cleanup s) = None"
  "outputContainer_' (cleanup s) = None"
  "sessionOutput_' (cleanup s) = None"
  "outputTarget_' (cleanup s) = None"
  "captureRequest_' (cleanup s) = None"
  "surface_' (cleanup s) = None"
  "statsCallback_' (cleanup s) = None"
  "frameCount_' (cleanup s) = frameCount_' s"
  "droppedFrames_' (cleanup s) = droppedFrames_' s"
  "prevFrameTimestampNs_' (cleanup s) = prevFrameTimestampNs_' s"
  "lastFrameRateHz_' (cleanup s) = lastFrameRateHz_' s"
  "lastLatencyMs_' (cleanup s) = lastLatencyMs_' s"
  "lastCallbackTimeNs_' (cleanup s) = lastCallbackTimeNs_' s"
  "delivered_' (cleanup s) = delivered_' s"
  by (simp_all add: cleanup_def Let_def)

lemma trace_cleanup: "trace_' (cleanup s) = trace_' s @ release_events s"
  by (simp add: cleanup_def Let_def release_events_def)

lemma idle_cleanup: "idle (cleanup s)"
  by (simp add: idle_def)

lemma held_released: "held r s = Some h \<Longrightarrow> Released r h \<in> set (release_events s)"
  by (cases r) (simp_all add: release_events_def)

lemma acquired_release_events: "Acquired r h \<notin> set (release_events s)"
  by (simp add: release_events_def split: option.splits)

lemma release_events_idle: "idle s \<Longrightarrow> release_events s = []"
  by (simp add: idle_def release_events_def)


subsection \<open>The acquisition steps keep what they acquire\<close>

lemma Acquired_create_events:
  "Acquired r' h \<in> set (create_events f r res) \<longleftrightarrow>
     r' = r \<and> fst res = ACAMERA_OK \<and> snd res = Stored (Some h)"
  by (cases "(f, r, res)" rule: create_events.cases) auto

lemma owns_mono: "owns T K s \<Longrightarrow> K \<subseteq> K' \<Longrightarrow> owns T K' s"
  unfolding owns_def by blast

lemma owns_step_create:
  assumes "owns T K s" and "r \<notin> K"
    and tr: "trace_' s' = trace_' s @ create_events f r res"
    and new: "held r s' = store_out (snd res) (held r s)"
    and old: "\<And>r'. r' \<noteq> r \<Longrightarrow> held r' s' = held r' s"
  shows "owns T (insert r K) s'"
proof -
  from \<open>owns T K s\<close> obtain evs where evs: "trace_' s = T @ evs"
    and acq: "\<And>r h. Acquired r h \<in> set evs \<Longrightarrow> r \<in> K \<and> held r s = Some h"
    unfolding owns_def by blast
  have "trace_' s' = T @ (evs @ create_events f r res)"
    using tr evs by simp
  moreover have "r' \<in> insert r K \<and> held r' s' = Some h"
    if "Acquired r' h \<in> set (evs @ create_events f r res)" for r' h
  proof (cases "Acquired r' h \<in> set evs")
    case True
    with acq have "r' \<in> K" "held r' s = Some h" by blast+
    moreover from \<open>r' \<in> K\<close> \<open>r \<notin> K\<close> have "r' \<noteq> r" by blast
    ultimately show ?thesis using old by simp
  next
    case False
    with that have "Acquired r' h \<in> set (create_events f r res)" by simp
    then have "r' = r" "snd res = Stored (Some h)"
      by (simp_all add: Acquired_create_events)
    with new show ?thesis by simp
  qed
  ultimately show ?thesis unfolding owns_def by blast
qed

lemma owns_step_call:
  assumes "owns T K s"
    and tr: "trace_' s' = trace_' s @ [Called f st]"
    and old: "\<And>r. held r s' = held r s"
  shows "owns T K s'"
proof -
  from \<open>owns T K s\<close> obtain evs where evs: "trace_' s = T @ evs"
    and acq: "\<And>r h. Acquired r h \<in> set evs \<Longrightarrow> r \<in> K \<and> held r s = Some h"
    unfolding owns_def by blast
  have "trace_' s' = T @ (evs @ [Called f st])"
    using tr evs by simp
  moreover have "r \<in> K \<and> held r s' = Some h"
    if "Acquired r h \<in> set (evs @ [Called f st])" for r h
    using that acq old by simp
  ultimately show ?thesis unfolding owns_def by blast
qed

lemma held_update [simp]:
  "held r (trace_'_update ft s) = held r s"
  "r \<noteq> Device \<Longrightarrow> held r (cameraDevice_'_update f s) = held r s"
  "r \<noteq> Target \<Longrightarrow> held r (outputTarget_'_update f s) = held r s"
  "r \<noteq> Request \<Longrightarrow> held r (captureRequest_'_update f s) = held r s"
  "r \<noteq> Container \<Longrightarrow> held r (outputContainer_'_update f s) = held r s"
  "r \<noteq> Output \<Longrightarrow> held r (sessionOutput_'_update f s) = held r s"
  "r \<noteq> Session \<Longrightarrow> held r (captureSession_'_update f s) = held r s"
  by (cases r; simp)+

lemma tracks_open_device:
  assumes "Device \<notin> K"
  shows "tracks K (insert Device K) (open_device cs)"
  unfolding tracks_def
proof (intro allI impI)
  fix T s s'
  assume o: "owns T K s"
    and r: "open_device cs s = Inl s' \<or> open_device cs s = Inr s'"
  from r have s': "s' = s\<lparr>cameraDevice_' := store_out (snd (openCamera_r cs)) (cameraDevice_' s),
      trace_' := trace_' s @ create_events FN_openCamera Device (openCamera_r cs)\<rparr>"
    by (auto simp: open_device_def Let_def split: if_splits)
  show "owns T (insert Device K) s'"
    by (rule owns_step_create [OF o assms, of _ FN_openCamera "openCamera_r cs"]) (simp_all add: s')
qed

lemma tracks_create_output_target:
  assumes "Target \<notin> K"
  shows "tracks K (insert Target K) (create_output_target cs)"
  unfolding tracks_def
proof (intro allI impI)
  fix T s s'
  assume o: "owns T K s"
    and r: "create_output_target cs s = Inl s' \<or> create_output_target cs s = Inr s'"
  from r have s': "s' = s\<lparr>outputTarget_' := store_out (snd (OutputTarget_create_r cs)) (outputTarget_' s),
      trace_' := trace_' s @ create_events FN_OutputTarget_create Target (OutputTarget_create_r cs)\<rparr>"
    by (auto simp: create_output_target_def Let_def split: if_splits)
  show "owns T (insert Target K) s'"
    by (rule owns_step_create [OF o assms, of _ FN_OutputTarget_create "OutputTarget_create_r cs"]) (simp_all add: s')
qed

lemma tracks_create_capture_request:
  assumes "Request \<notin> K"
  shows "tracks K (insert Request K) (create_capture_request cs)"
  unfolding tracks_def
proof (intro allI impI)
  fix T s s'
  assume o: "owns T K s"
    and r: "create_capture_request cs s = Inl s' \<or> create_capture_request cs s = Inr s'"
  from r have s': "s' = s\<lparr>captureRequest_' := store_out (snd (createCaptureRequest_r cs)) (captureRequest_' s),
      trace_' := trace_' s @ create_events FN_createCaptureRequest Request (createCaptureRequest_r cs)\<rparr>"
    by (auto simp: create_capture_request_def Let_def split: if_splits)
  show "owns T (insert Request K) s'"
    by (rule owns_step_create [OF o assms, of _ FN_createCaptureRequest "createCaptureRequest_r cs"]) (simp_all add: s')
qed

lemma tracks_create_output_container:
  assumes "Container \<notin> K"
  shows "tracks K (insert Container K) (create_output_container cs)"
  unfolding tracks_def
proof (intro allI impI)
  fix T s s'
  assume o: "owns T K s"
    and r: "create_output_container cs s = Inl s' \<or> create_output_container cs s = Inr s'"
  from r have s': "s' = s\<lparr>outputContainer_' := store_out (snd (Container_create_r cs)) (outputContainer_' s),
      trace_' := trace_' s @ create_events FN_Container_create Container (Container_create_r cs)\<rparr>"
    by (auto simp: create_output_container_def Let_def split: if_splits)
  show "owns T (insert Container K) s'"
    by (rule owns_step_create [OF o assms, of _ FN_Container_create "Container_create_r cs"]) (simp_all add: s')
qed

lemma tracks_create_session_output:
  assumes "Output \<notin> K"
  shows "tracks K (insert Output K) (create_session_output cs)"
  unfolding tracks_def
proof (intro allI impI)
  fix T s s'
  assume o: "owns T K s"
    and r: "create_session_output cs s = Inl s' \<or> create_session_output cs s = Inr s'"
  from r have s': "s' = s\<lparr>sessionOutput_' := store_out (snd (SessionOutput_create_r cs)) (sessionOutput_' s),
      trace_' := trace_' s @ create_events FN_SessionOutput_create Output (SessionOutput_create_r cs)\<rparr>"
    by (auto simp: create_session_output_def Let_def split: if_splits)
  show "owns T (insert Output K) s'"
    by (rule owns_step_create [OF o assms, of _ FN_SessionOutput_create "SessionOutput_create_r cs"]) (simp_all add: s')
qed

lemma tracks_create_capture_session:
  assumes "Session \<notin> K"
  shows "tracks K (insert Session K) (create_capture_session cs)"
  unfolding tracks_def
proof (intro allI impI)
  fix T s s'
  assume o: "owns T K s"
    and r: "create_capture_session cs s = Inl s' \<or> create_capture_session cs s = Inr s'"
  from r have s': "s' = s\<lparr>captureSession_' := store_out (snd (createCaptureSession_r cs)) (captureSession_' s),
      trace_' := trace_' s @ create_events FN_createCaptureSession Session (createCaptureSession_r cs)\<rparr>"
    by (auto simp: create_capture_session_def Let_def split: if_splits)
  show "owns T (insert Session K) s'"
    by (rule owns_step_create [OF o assms, of _ FN_createCaptureSession "createCaptureSession_r cs"]) (simp_all add: s')
qed

lemma tracks_add_target: "tracks K K (add_target cs)"
  unfolding tracks_def
proof (intro allI impI)
  fix T s s'
  assume o: "owns T K s"
    and r: "add_target cs s = Inl s' \<or> add_target cs s = Inr s'"
  from r have s': "s' = s\<lparr>trace_' := trace_' s @ [Called FN_addTarget (addTarget_r cs)]\<rparr>"
    by (auto simp: add_target_def Let_def split: if_splits)
  show "owns T K s'"
    by (rule owns_step_call [OF o, of _ FN_addTarget "addTarget_r cs"]) (simp_all add: s')
qed

lemma tracks_add_output: "tracks K K (add_output cs)"
  unfolding tracks_def
proof (intro allI impI)
  fix T s s'
  assume o: "owns T K s"
    and r: "add_output cs s = Inl s' \<or> add_output cs s = Inr s'"
  from r have s': "s' = s\<lparr>trace_' := trace_' s @ [Called FN_Container_add (Container_add_r cs)]\<rparr>"
    by (auto simp: add_output_def Let_def split: if_splits)
  show "owns T K s'"
    by (rule owns_step_call [OF o, of _ FN_Container_add "Container_add_r cs"]) (simp_all add: s')
qed

lemma tracks_set_repeating_request: "tracks K K (set_repeating_request cs)"
  unfolding tracks_def
proof (intro allI impI)
  fix T s s'
  assume o: "owns T K s"
    and r: "set_repeating_request cs s = Inl s' \<or> set_repeating_request cs s = Inr s'"
  from r have s': "s' = s\<lparr>trace_' := trace_' s @ [Called FN_setRepeatingRequest (setRepeatingRequest_r cs)]\<rparr>"
    by (auto simp: set_repeating_request_def Let_def split: if_splits)
  show "owns T K s'"
    by (rule owns_step_call [OF o, of _ FN_setRepeatingRequest "setRepeatingRequest_r cs"]) (simp_all add: s')
qed

lemma tracks_Nil: "tracks K K (run_steps [])"
  by (simp add: tracks_def)

lemma tracks_Cons:
  assumes f: "tracks K K' f" and fs: "tracks K' K'' (run_steps fs)" and sub: "K' \<subseteq> K''"
  shows "tracks K K'' (run_steps (f # fs))"
  unfolding tracks_def
proof (intro allI impI)
  fix T s s'
  assume o: "owns T K s"
    and r: "run_steps (f # fs) s = Inl s' \<or> run_steps (f # fs) s = Inr s'"
  show "owns T K'' s'"
  proof (cases "f s")
    case (Inl a)
    with r have "s' = a" by simp
    moreover from f o Inl have "owns T K' a" unfolding tracks_def by blast
    then have "owns T K'' a" using sub by (rule owns_mono)
    ultimately show ?thesis by simp
  next
    case (Inr b)
    with r have "run_steps fs b = Inl s' \<or> run_steps fs b = Inr s'" by simp
    moreover from f o Inr have "owns T K' b" unfolding tracks_def by blast
    ultimately show ?thesis using fs unfolding tracks_def by blast
  qed
qed

lemma tracks_Nil_UNIV: "tracks K UNIV (run_steps [])"
  unfolding tracks_def
proof (intro allI impI)
  fix T s s'
  assume "owns T K s" and "run_steps [] s = Inl s' \<or> run_steps [] s = Inr s'"
  then show "owns T UNIV s'"
    using owns_mono [of T K s UNIV] by simp
qed

lemma tracks_acquisition_steps: "tracks {Window} UNIV (run_steps (acquisition_steps cs))"
proof -
  let ?K1 = "{Device, Window}"
  let ?K2 = "insert Target ?K1"
  let ?K3 = "insert Request ?K2"
  let ?K4 = "insert Container ?K3"
  let ?K5 = "insert Output ?K4"
  let ?K6 = "insert Session ?K5"
  have "tracks ?K6 UNIV (run_steps [set_repeating_request cs])"
    by (rule tracks_Cons [OF tracks_set_repeating_request tracks_Nil_UNIV]) simp
  then have "tracks ?K5 UNIV (run_steps [create_capture_session cs, set_repeating_request cs])"
    by (rule tracks_Cons [OF tracks_create_capture_session, rotated]) simp_all
  then have "tracks ?K5 UNIV
      (run_steps [add_output cs, create_capture_session cs, set_repeating_request cs])"
    by (rule tracks_Cons [OF tracks_add_output]) simp
  then have "tracks ?K4 UNIV (run_steps [create_session_output cs,
      add_output cs, create_capture_session cs, set_repeating_request cs])"
    by (rule tracks_Cons [OF tracks_create_session_output, rotated]) simp_all
  then have "tracks ?K3 UNIV (run_steps [create_output_container cs, create_session_output cs,
      add_output cs, create_capture_session cs, set_repeating_request cs])"
    by (rule tracks_Cons [OF tracks_create_output_container, rotated]) simp_all
  then have "tracks ?K3 UNIV (run_steps [add_target cs,
      create_output_container cs, create_session_output cs,
      add_output cs, create_capture_session cs, set_repeating_request cs])"
    by (rule tracks_Cons [OF tracks_add_target]) simp
  then have "tracks ?K2 UNIV (run_steps [create_capture_request cs, add_target cs,
      create_output_container cs, create_session_output cs,
      add_output cs, create_capture_session cs, set_repeating_request cs])"
    by (rule tracks_Cons [OF tracks_create_capture_request, rotated]) simp_all
  then have "tracks ?K1 UNIV (run_steps [create_output_target cs,
      create_capture_request cs, add_target cs,
      create_output_container cs, create_session_output cs,
      add_output cs, create_capture_session cs, set_repeating_request cs])"
    by (rule tracks_Cons [OF tracks_create_output_target, rotated]) simp_all
  then have "tracks {Window} UNIV (run_steps [open_device cs, create_output_target cs,
      create_capture_request cs, add_target cs,
      create_output_container cs, create_session_output cs,
      add_output cs, create_capture_session cs, set_repeating_request cs])"
    by (rule tracks_Cons [OF tracks_open_device, rotated]) simp_all
  then show ?thesis by (simp add: acquisition_steps_def)
qed

lemma owns_begin_start: "owns (trace_' s) {Window} (begin_start cameraId w cb s)"
  unfolding owns_def by (rule exI [of _ "[Acquired Window w]"]) (simp add: begin_start_def)

subsection \<open>When startPreview succeeds and what a failed start leaves\<close>

lemmas step_defs = open_device_def create_output_target_def create_capture_request_def
  add_target_def create_output_container_def create_session_output_def add_output_def
  create_capture_session_def set_repeating_request_def

lemma run_steps_ok_iff:
  "(\<exists>s'. run_steps (acquisition_steps cs) s = Inr s') \<longleftrightarrow>
     fst (openCamera_r cs) = ACAMERA_OK \<and>
     store_out (snd (openCamera_r cs)) (cameraDevice_' s) \<noteq> None \<and>
     fst (OutputTarget_create_r cs) = ACAMERA_OK \<and>
     fst (createCaptureRequest_r cs) = ACAMERA_OK \<and>
     addTarget_r cs = ACAMERA_OK \<and>
     fst (Container_create_r cs) = ACAMERA_OK \<and>
     fst (SessionOutput_create_r cs) = ACAMERA_OK \<and>
     Container_add_r cs = ACAMERA_OK \<and>
     fst (createCaptureSession_r cs) = ACAMERA_OK \<and>
     store_out (snd (createCaptureSession_r cs)) (captureSession_' s) \<noteq> None \<and>
     setRepeatingRequest_r cs = ACAMERA_OK"
  by (simp add: acquisition_steps_def step_defs Let_def)

lemma startPreview_ok_iff:
  assumes "\<not> (streaming_' s \<and> currentCameraId_' s = cameraId)"
  shows "fst (startPreview cs cameraId surface cb s) \<longleftrightarrow> no_step_fails cs surface s"
proof (cases "manager_' s = None \<or> surface = None")
  case True
  then show ?thesis using assms
    by (auto simp: startPreview_def no_step_fails_def Let_def)
next
  case False
  then obtain w where w: "surface = Some w" and m: "manager_' s \<noteq> None" by auto
  let ?s1 = "if streaming_' s then cleanup s else s"
  let ?b = "begin_start cameraId w cb ?s1"
  have "fst (startPreview cs cameraId surface cb s) \<longleftrightarrow>
      (\<exists>s'. run_steps (acquisition_steps cs) ?b = Inr s')"
    using assms w m by (auto simp: startPreview_def Let_def split: sum.splits)
  also have "\<dots> \<longleftrightarrow> no_step_fails cs surface s"
    unfolding run_steps_ok_iff using w m
    by (simp add: no_step_fails_def begin_start_def)
  finally show ?thesis .
qed


lemma failed_step_released:
  assumes o: "owns T UNIV sf"
  shows "\<exists>before after. drop (length T) (trace_' (cleanup sf)) = before @ after \<and>
     (\<forall>r h. Acquired r h \<in> set (drop (length T) (trace_' (cleanup sf))) \<longrightarrow>
        Acquired r h \<in> set before \<and> Released r h \<in> set after)"
proof -
  from o obtain evs where evs: "trace_' sf = T @ evs"
    and acq: "\<And>r h. Acquired r h \<in> set evs \<Longrightarrow> held r sf = Some h"
    unfolding owns_def by blast
  have new: "drop (length T) (trace_' (cleanup sf)) = evs @ release_events sf"
    by (simp add: trace_cleanup evs)
  have "Acquired r h \<in> set evs \<and> Released r h \<in> set (release_events sf)"
    if "Acquired r h \<in> set (evs @ release_events sf)" for r h
  proof -
    from that have "Acquired r h \<in> set evs"
      by (simp add: acquired_release_events)
    then show ?thesis using acq held_released by blast
  qed
  with new show ?thesis by metis
qed

lemma startPreview_False_cases:
  assumes "startPreview cs cameraId surface cb s = (False, s')"
  shows "(manager_' s = None \<or> surface = None) \<and> s' = (if streaming_' s then cleanup s else s)
     \<or> (\<exists>sf. manager_' s \<noteq> None \<and> surface \<noteq> None \<and> s' = cleanup sf \<and>
           owns (trace_' (if streaming_' s then cleanup s else s)) UNIV sf)"
proof (cases "manager_' s = None \<or> surface = None")
  case True
  then show ?thesis using assms
    by (auto simp: startPreview_def Let_def split: if_splits)
next
  case False
  then obtain w where w: "surface = Some w" and m: "manager_' s \<noteq> None" by auto
  let ?s1 = "if streaming_' s then cleanup s else s"
  let ?b = "begin_start cameraId w cb ?s1"
  from assms w m obtain sf where sf: "run_steps (acquisition_steps cs) ?b = Inl sf"
    and s': "s' = cleanup sf"
    by (auto simp: startPreview_def Let_def split: if_splits sum.splits)
  have "owns (trace_' ?s1) {Window} ?b"
    by (rule owns_begin_start)
  with tracks_acquisition_steps sf have "owns (trace_' ?s1) UNIV sf"
    unfolding tracks_def by blast
  with s' w m show ?thesis by blast
qed


lemmas start_defs = startPreview_def acquisition_steps_def step_defs begin_start_def
  new_CameraStream_def service_ok_def ACAMERA_OK_def Let_def

lemma streaming_stream_eq:
  "streaming_stream =
     \<lparr>manager_' = Some 1, streaming_' = True, currentCameraId_' = ''0'',
      cameraDevice_' = Some 10, captureSession_' = Some 15, outputContainer_' = Some 13,
      sessionOutput_' = Some 14, outputTarget_' = Some 11, captureRequest_' = Some 12,
      surface_' = Some 7, statsCallback_' = None, frameCount_' = 0, droppedFrames_' = 0,
      prevFrameTimestampNs_' = 0, lastFrameRateHz_' = 0, lastLatencyMs_' = 0,
      lastCallbackTimeNs_' = 0,
      trace_' = [Acquired Window 7, Called FN_openCamera 0, Acquired Device 10,
        Called FN_OutputTarget_create 0, Acquired Target 11,
        Called FN_createCaptureRequest 0, Acquired Request 12, Called FN_addTarget 0,
        Called FN_Container_create 0, Acquired Container 13,
        Called FN_SessionOutput_create 0, Acquired Output 14, Called FN_Container_add 0,
        Called FN_createCaptureSession 0, Acquired Session 15,
        Called FN_setRepeatingRequest 0],
      delivered_' = []\<rparr>"
  by (simp add: streaming_stream_def start_defs)

subsection \<open>The claims about the stream\<close>

lemma updateStats_handles [simp]:
  "streaming_' (updateStats now t s) = streaming_' s"
  "idle (updateStats now t s) = idle s"
  by (simp_all add: updateStats_def Let_def idle_def)

lemma settled_kept:
  "settled (new_CameraStream mgr)"
  "settled s \<Longrightarrow> settled (snd (startPreview cs cameraId surface cb s))"
  "settled s \<Longrightarrow> settled (stopPreview s)"
  "settled s \<Longrightarrow> settled (onCaptureStarted now t s)"
proof -
  show "settled (new_CameraStream mgr)"
    by (simp add: settled_def idle_def new_CameraStream_def)
  show "settled (stopPreview s)" if "settled s"
    using that by (auto simp: settled_def stopPreview_def idle_cleanup)
  show "settled (onCaptureStarted now t s)" if "settled s"
    using that by (simp add: settled_def onCaptureStarted_def)
  show "settled (snd (startPreview cs cameraId surface cb s))" if "settled s"
  proof (cases "fst (startPreview cs cameraId surface cb s)")
    case True
    then have "streaming_' (snd (startPreview cs cameraId surface cb s))"
      by (auto simp: startPreview_def Let_def split: if_splits option.splits sum.splits)
    then show ?thesis by (simp add: settled_def)
  next
    case False
    obtain s' where res: "startPreview cs cameraId surface cb s = (False, s')"
      using False by (cases "startPreview cs cameraId surface cb s") simp
    from startPreview_False_cases [OF res] that have "idle s'"
      by (auto simp: settled_def idle_cleanup)
    with res show ?thesis by (simp add: settled_def)
  qed
qed

text \<open>
  Claim C1. Take a \<open>startPreview\<close> call that does not return at once (the stream is not
  already streaming the requested camera) and in which some step fails: the manager is
  invalid, the surface is null, or one of the nine native steps fails. Let the stream be
  streaming or hold nothing when called, or the manager be valid and the surface not
  null. Then the call returns false; the stream is not streaming and is left with null
  device, session, request, target, output, container and surface handles and an empty
  camera id; and the native calls of this call split into a first part and a later part
  such that every resource handed out in the call was handed out in the first part and
  is released in the later part.

  The hypothesis on the stream holds of every call that the program makes. A new
  stream holds nothing, and \<open>startPreview\<close>, \<open>stopPreview\<close> and the capture-start
  notification keep a stream streaming or idle (\<open>settled_kept\<close>). A stream that a device
  disconnect or error notification has stopped still holds its handles (claim C3); it
  has streamed, so its manager is valid, and the only caller of \<open>startPreview\<close>,
  \<open>nativeStartPreview\<close>, returns before the call when it has no window to pass.
\<close>

theorem startPreview_failure_releases:
  assumes notsame: "\<not> (streaming_' s \<and> currentCameraId_' s = cameraId)"
    and fails: "\<not> no_step_fails cs surface s"
    and state: "settled s \<or> (manager_' s \<noteq> None \<and> surface \<noteq> None)"
  shows "fst (startPreview cs cameraId surface cb s) = False
    \<and> \<not> streaming_' (snd (startPreview cs cameraId surface cb s))
    \<and> idle (snd (startPreview cs cameraId surface cb s))
    \<and> (\<exists>before after.
          new_events s (snd (startPreview cs cameraId surface cb s)) = before @ after \<and>
          (\<forall>r h. Acquired r h \<in> set (new_events s (snd (startPreview cs cameraId surface cb s)))
             \<longrightarrow> Acquired r h \<in> set before \<and> Released r h \<in> set after))"
proof -
  obtain ok s' where res: "startPreview cs cameraId surface cb s = (ok, s')"
    by (cases "startPreview cs cameraId surface cb s")
  from startPreview_ok_iff [OF notsame, of cs surface cb] fails res have ok: "ok = False"
    by simp
  let ?s1 = "if streaming_' s then cleanup s else s"
  have s1: "trace_' ?s1 = trace_' s @ (if streaming_' s then release_events s else [])"
    by (simp add: trace_cleanup)
  from startPreview_False_cases [OF res [unfolded ok]]
  consider (guard) "manager_' s = None \<or> surface = None" "s' = ?s1"
    | (step) sf where "manager_' s \<noteq> None" "surface \<noteq> None" "s' = cleanup sf"
        "owns (trace_' ?s1) UNIV sf"
    by blast
  then have "\<not> streaming_' s' \<and> idle s'
    \<and> (\<exists>before after. new_events s s' = before @ after \<and>
          (\<forall>r h. Acquired r h \<in> set (new_events s s')
             \<longrightarrow> Acquired r h \<in> set before \<and> Released r h \<in> set after))"
  proof cases
    case guard
    have "new_events s s' = [] @ (if streaming_' s then release_events s else [])"
      using guard(2) s1 by (simp add: new_events_def)
    moreover have "Acquired r h \<notin> set (if streaming_' s then release_events s else [])" for r h
      by (simp add: acquired_release_events)
    ultimately have ex: "\<exists>before after. new_events s s' = before @ after \<and>
          (\<forall>r h. Acquired r h \<in> set (new_events s s')
             \<longrightarrow> Acquired r h \<in> set before \<and> Released r h \<in> set after)"
      by (metis append_Nil)
    have ns: "\<not> streaming_' s'" using guard(2) by simp
    from guard(1) state have "streaming_' s \<or> idle s"
      by (auto simp: settled_def)
    then have "idle s'"
      using guard(2) by (auto simp: idle_cleanup)
    with ns ex show ?thesis by (intro conjI)
  next
    case step
    from step(4) obtain evs where evs: "trace_' sf = trace_' ?s1 @ evs"
      and acq: "\<And>r h. Acquired r h \<in> set evs \<Longrightarrow> held r sf = Some h"
      unfolding owns_def by blast
    let ?pre = "if streaming_' s then release_events s else []"
    have new: "new_events s s' = (?pre @ evs) @ release_events sf"
      using step(3) evs s1 by (simp add: new_events_def trace_cleanup)
    have "Acquired r h \<in> set (?pre @ evs) \<and> Released r h \<in> set (release_events sf)"
      if "Acquired r h \<in> set ((?pre @ evs) @ release_events sf)" for r h
    proof -
      from that have "Acquired r h \<in> set evs"
        by (simp add: acquired_release_events split: if_splits)
      then show ?thesis using acq held_released by auto
    qed
    with new have ex: "\<exists>before after. new_events s s' = before @ after \<and>
          (\<forall>r h. Acquired r h \<in> set (new_events s s')
             \<longrightarrow> Acquired r h \<in> set before \<and> Released r h \<in> set after)"
      by metis
    have "\<not> streaming_' s'" "idle s'"
      using step(3) by (simp_all add: idle_cleanup)
    with ex show ?thesis by (intro conjI)
  qed
  with res ok show ?thesis by simp
qed

text \<open>
  A new stream whose repeating request is refused is left idle, and so is the stream
  stopped by a disconnect notification when a later start on a new surface fails at the
  repeating request: the handles of the earlier session go with those of the failed one.
  A stream that streams camera \<open>0\<close> and is asked for camera \<open>1\<close> with a null surface has
  released everything when the call returns false.
\<close>

theorem startPreview_failure_releases_witness:
  "\<not> (streaming_' (new_CameraStream (Some 1)) \<and> currentCameraId_' (new_CameraStream (Some 1)) = ''0'')
   \<and> \<not> no_step_fails service_no_repeat (Some 7) (new_CameraStream (Some 1))
   \<and> settled (new_CameraStream (Some 1))
   \<and> fst (startPreview service_no_repeat ''0'' (Some 7) None (new_CameraStream (Some 1))) = False
   \<and> idle (snd (startPreview service_no_repeat ''0'' (Some 7) None (new_CameraStream (Some 1))))
   \<and> \<not> (streaming_' stale_stream \<and> currentCameraId_' stale_stream = ''0'')
   \<and> \<not> no_step_fails service_no_repeat (Some 8) stale_stream
   \<and> manager_' stale_stream \<noteq> None
   \<and> \<not> idle stale_stream
   \<and> fst (startPreview service_no_repeat ''0'' (Some 8) None stale_stream) = False
   \<and> idle (snd (startPreview service_no_repeat ''0'' (Some 8) None stale_stream))
   \<and> \<not> (streaming_' streaming_stream \<and> currentCameraId_' streaming_stream = ''1'')
   \<and> \<not> no_step_fails service_ok None streaming_stream
   \<and> settled streaming_stream
   \<and> \<not> idle streaming_stream
   \<and> fst (startPreview service_ok ''1'' None None streaming_stream) = False
   \<and> idle (snd (startPreview service_ok ''1'' None None streaming_stream))
   \<and> \<not> no_step_fails service_ok (Some 7) (new_CameraStream None)
   \<and> settled (new_CameraStream None)
   \<and> fst (startPreview service_ok ''0'' (Some 7) None (new_CameraStream None)) = False
   \<and> idle (snd (startPreview service_ok ''0'' (Some 7) None (new_CameraStream None)))"
proof -
  have a: "\<not> (streaming_' (new_CameraStream (Some 1))
      \<and> currentCameraId_' (new_CameraStream (Some 1)) = ''0'')"
    by (simp add: new_CameraStream_def)
  have b: "\<not> no_step_fails service_no_repeat (Some 7) (new_CameraStream (Some 1))"
    by (simp add: no_step_fails_def service_no_repeat_def service_ok_def ACAMERA_OK_def)
  have c: "settled (new_CameraStream (Some 1))"
    by (simp add: settled_def idle_def new_CameraStream_def)
  have a': "\<not> (streaming_' stale_stream \<and> currentCameraId_' stale_stream = ''0'')"
    by (simp add: stale_stream_def onDeviceDisconnected_def)
  have b': "\<not> no_step_fails service_no_repeat (Some 8) stale_stream"
    by (simp add: no_step_fails_def service_no_repeat_def service_ok_def ACAMERA_OK_def)
  have c': "manager_' stale_stream \<noteq> None" "\<not> idle stale_stream"
    by (simp_all add: stale_stream_def onDeviceDisconnected_def streaming_stream_eq idle_def)
  have a2: "\<not> (streaming_' streaming_stream \<and> currentCameraId_' streaming_stream = ''1'')"
    by (simp add: streaming_stream_eq)
  have b2: "\<not> no_step_fails service_ok None streaming_stream"
    by (simp add: no_step_fails_def)
  have c2: "settled streaming_stream" "\<not> idle streaming_stream"
    by (simp_all add: settled_def idle_def streaming_stream_eq)
  have a3: "\<not> (streaming_' (new_CameraStream None)
      \<and> currentCameraId_' (new_CameraStream None) = ''0'')"
    by (simp add: new_CameraStream_def)
  have b3: "\<not> no_step_fails service_ok (Some 7) (new_CameraStream None)"
    by (simp add: no_step_fails_def new_CameraStream_def)
  have c3: "settled (new_CameraStream None)"
    by (simp add: settled_def idle_def new_CameraStream_def)
  from startPreview_failure_releases [OF a b, of None]
    startPreview_failure_releases [OF a' b', of None]
    startPreview_failure_releases [OF a2 b2, of None]
    startPreview_failure_releases [OF a3 b3, of None]
    a b c a' b' c' a2 b2 c2 b3 c3
  show ?thesis by simp
qed

text \<open>
  Claim C2, amended. On a stream that is streaming camera \<open>id\<close>, \<open>startPreview(id, target)\<close>
  returns true at once and changes nothing, whatever the target: the test compares the
  camera id only, so a different target is not taken up and the stream stays bound to its
  old one. The full stop before a start happens when the requested camera id differs from
  the one being streamed: the call then behaves as the same call on the cleaned-up stream.
\<close>

theorem startPreview_while_streaming:
  "(streaming_' s \<and> currentCameraId_' s = cameraId \<longrightarrow>
      startPreview cs cameraId surface cb s = (True, s))
   \<and> (streaming_' s \<and> currentCameraId_' s \<noteq> cameraId \<longrightarrow>
      startPreview cs cameraId surface cb s = startPreview cs cameraId surface cb (cleanup s)
      \<and> idle (cleanup s)
      \<and> trace_' (cleanup s) = trace_' s @ release_events s)"
  by (simp add: startPreview_def idle_cleanup trace_cleanup)

theorem startPreview_while_streaming_witness:
  "streaming_' streaming_stream \<and> currentCameraId_' streaming_stream = ''0''
   \<and> startPreview service_ok ''0'' (Some 7) None streaming_stream = (True, streaming_stream)
   \<and> currentCameraId_' streaming_stream \<noteq> ''1''
   \<and> startPreview service_ok ''1'' (Some 7) None streaming_stream
       = startPreview service_ok ''1'' (Some 7) None (cleanup streaming_stream)
   \<and> trace_' (cleanup streaming_stream) = trace_' streaming_stream
       @ [StopRepeating 15, Released Session 15, Released Device 10, Released Request 12,
          Released Target 11, Released Output 14, Released Container 13, Released Window 7]"
  using startPreview_while_streaming [of streaming_stream "''0''" service_ok "Some 7" None]
    startPreview_while_streaming [of streaming_stream "''1''" service_ok "Some 7" None]
  by (simp add: streaming_stream_eq release_events_def)

text \<open>
  The claim as it was stated fails for a different target: the stream streams camera
  \<open>0\<close> to surface 7; \<open>startPreview\<close> for camera \<open>0\<close> and surface 8 returns true, makes no
  native call and leaves the stream bound to surface 7.
\<close>

theorem startPreview_other_target_counterexample:
  "streaming_' streaming_stream \<and> currentCameraId_' streaming_stream = ''0''
   \<and> surface_' streaming_stream = Some 7
   \<and> startPreview service_ok ''0'' (Some 8) None streaming_stream = (True, streaming_stream)
   \<and> new_events streaming_stream
        (snd (startPreview service_ok ''0'' (Some 8) None streaming_stream)) = []
   \<and> surface_' (snd (startPreview service_ok ''0'' (Some 8) None streaming_stream)) \<noteq> Some 8"
  by (simp add: streaming_stream_eq startPreview_def new_events_def)

text \<open>
  Claim C3, evaluated where the code departs from it. A disconnect or error notification
  makes \<open>isStreaming()\<close> false; the \<open>stopPreview()\<close> that follows finds \<open>streaming_\<close> false
  and returns at once: it makes no native call, and the device, session, request, target,
  output, container and surface handles of the stream are all still held.
\<close>

theorem stopPreview_after_disconnect_releases_nothing:
  "isStreaming streaming_stream
   \<and> \<not> isStreaming (onDeviceDisconnected streaming_stream)
   \<and> \<not> isStreaming (onDeviceError 1 streaming_stream)
   \<and> stopPreview (onDeviceDisconnected streaming_stream) = onDeviceDisconnected streaming_stream
   \<and> stopPreview (onDeviceError 1 streaming_stream) = onDeviceError 1 streaming_stream
   \<and> new_events (onDeviceDisconnected streaming_stream)
        (stopPreview (onDeviceDisconnected streaming_stream)) = []
   \<and> captureSession_' (stopPreview (onDeviceDisconnected streaming_stream)) = Some 15
   \<and> cameraDevice_' (stopPreview (onDeviceDisconnected streaming_stream)) = Some 10
   \<and> captureRequest_' (stopPreview (onDeviceDisconnected streaming_stream)) = Some 12
   \<and> outputTarget_' (stopPreview (onDeviceDisconnected streaming_stream)) = Some 11
   \<and> sessionOutput_' (stopPreview (onDeviceDisconnected streaming_stream)) = Some 14
   \<and> outputContainer_' (stopPreview (onDeviceDisconnected streaming_stream)) = Some 13
   \<and> surface_' (stopPreview (onDeviceDisconnected streaming_stream)) = Some 7"
  by (simp add: streaming_stream_eq isStreaming_def onDeviceDisconnected_def
      onDeviceError_def stopPreview_def new_events_def)

text \<open>
  Claim C7. \<open>stopPreview\<close> is idempotent: on a stream that is not streaming it returns the
  stream as it was, the record of native calls included, and a second \<open>stopPreview\<close> in a
  row changes nothing that the first one left, so it makes no native call.
\<close>

theorem stopPreview_idempotent:
  "(\<not> streaming_' s \<longrightarrow> stopPreview s = s \<and> trace_' (stopPreview s) = trace_' s)
   \<and> stopPreview (stopPreview s) = stopPreview s
   \<and> trace_' (stopPreview (stopPreview s)) = trace_' (stopPreview s)"
proof -
  have "\<not> streaming_' (stopPreview s)"
    by (simp add: stopPreview_def)
  then have "stopPreview (stopPreview s) = stopPreview s"
    by (simp add: stopPreview_def)
  then show ?thesis
    by (simp add: stopPreview_def)
qed

theorem stopPreview_idempotent_witness:
  "\<not> streaming_' (stopPreview streaming_stream)
   \<and> stopPreview (stopPreview streaming_stream) = stopPreview streaming_stream
   \<and> new_events (stopPreview streaming_stream) (stopPreview (stopPreview streaming_stream)) = []
   \<and> new_events streaming_stream (stopPreview streaming_stream)
       = [StopRepeating 15, Released Session 15, Released Device 10, Released Request 12,
          Released Target 11, Released Output 14, Released Container 13, Released Window 7]"
proof -
  have "\<not> streaming_' (stopPreview streaming_stream)"
    by (simp add: stopPreview_def)
  moreover have "new_events streaming_stream (stopPreview streaming_stream)
       = [StopRepeating 15, Released Session 15, Released Device 10, Released Request 12,
          Released Target 11, Released Output 14, Released Container 13, Released Window 7]"
    by (simp add: stopPreview_def new_events_def trace_cleanup)
      (simp add: streaming_stream_eq release_events_def)
  ultimately show ?thesis
    using stopPreview_idempotent [of "stopPreview streaming_stream"]
    by (simp add: new_events_def)
qed

subsection \<open>Frame statistics\<close>

lemma run_steps_keep_stats:
  assumes "run_steps (acquisition_steps cs) s = Inr s'"
  shows "prevFrameTimestampNs_' s' = prevFrameTimestampNs_' s
    \<and> lastFrameRateHz_' s' = lastFrameRateHz_' s"
  using assms
  by (auto simp: acquisition_steps_def step_defs Let_def split: if_splits)

lemma started_stats_reset:
  assumes "\<not> (streaming_' s \<and> currentCameraId_' s = cameraId)"
    and "fst (startPreview cs cameraId surface cb s)"
  shows "prevFrameTimestampNs_' (snd (startPreview cs cameraId surface cb s)) = 0
    \<and> lastFrameRateHz_' (snd (startPreview cs cameraId surface cb s)) = 0"
proof -
  from assms obtain w sb where "surface = Some w"
    and *: "run_steps (acquisition_steps cs)
        (begin_start cameraId w cb (if streaming_' s then cleanup s else s)) = Inr sb"
    and **: "snd (startPreview cs cameraId surface cb s) = sb\<lparr>streaming_' := True\<rparr>"
    by (auto simp: startPreview_def Let_def split: if_splits option.splits sum.splits)
  from run_steps_keep_stats [OF *] ** show ?thesis
    by (simp add: begin_start_def)
qed

lemma sint_succ:
  fixes c :: "64 word"
  assumes "sint c < 9223372036854775807"
  shows "sint (c + 1) = sint c + 1"
proof -
  have "- (2 ^ (LENGTH(64) - 1)) \<le> sint c" by (rule sint_ge)
  with assms have "- (2 ^ (LENGTH(64) - 1)) \<le> sint c + 1"
    and "sint c + 1 < 2 ^ (LENGTH(64) - 1)" by simp_all
  then have "signed_take_bit (LENGTH(64) - 1) (sint c + 1) = sint c + 1"
    by (rule signed_take_bit_int_eq_self)
  then show ?thesis by (simp only: sint_word_add) simp
qed

text \<open>
  The interval in seconds that \<open>updateStats\<close> divides by is positive, so the reciprocal
  is that of a positive \<open>double\<close>.
\<close>

lemma intervalSec_pos:
  assumes "0 < sint prev" and "sint prev < sint t"
  shows "0 < double_div (double_of_int64 (t - prev)) (double_of_int64 kNsPerSecond)"
  using assms seconds_pos [of "sint t - sint prev"]
  by (simp add: kNsPerSecond_def round_double_kNsPerSecond double_of_int64_def sint_diff_pos)

text \<open>The values that \<open>updateStats\<close> stores are finite \<open>float\<close>s.\<close>

lemma updateStats_in_range:
  "0 < sint (prevFrameTimestampNs_' s) \<Longrightarrow> sint (prevFrameTimestampNs_' s) < sint t \<Longrightarrow>
     \<bar>lastFrameRateHz_' (updateStats now t s)\<bar> \<le> 2 powi 30"
  "0 < sint t \<Longrightarrow> sint t < sint now \<Longrightarrow>
     \<bar>lastLatencyMs_' (updateStats now t s)\<bar> \<le> 2 powi 63"
proof -
  assume g: "0 < sint (prevFrameTimestampNs_' s)" "sint (prevFrameTimestampNs_' s) < sint t"
  then have "0 < sint (t - prevFrameTimestampNs_' s)" by (simp add: sint_diff_pos)
  from rate_range [OF this] g
  show "\<bar>lastFrameRateHz_' (updateStats now t s)\<bar> \<le> 2 powi 30"
    by (simp add: updateStats_def Let_def kNsPerSecond_def round_double_kNsPerSecond
        double_of_int64_def double_div_def float_of_double_def)
next
  assume g: "0 < sint t" "sint t < sint now"
  from latency_range [of "now - t"] g
  show "\<bar>lastLatencyMs_' (updateStats now t s)\<bar> \<le> 2 powi 63"
    by (simp add: updateStats_def Let_def kNsToMs_def double_of_int64_def double_div_def
        float_of_double_def)
qed

text \<open>
  Claim C8, amended. A capture-start notification with hardware timestamp \<open>t\<close>, read at
  boot time \<open>now\<close>, adds exactly one to the 64-bit frame counter (one to its signed
  reading unless that is the largest \<open>int64_t\<close>) and makes \<open>t\<close> the previous timestamp.
  The stored frame rate becomes the reciprocal of \<open>t\<close> minus the previous timestamp, in
  seconds, when the previous timestamp is positive and \<open>t\<close> is greater than it, and is
  left as it was otherwise; after a start the previous timestamp is 0, so the first
  notification leaves the rate at 0. The stored latency becomes \<open>now - t\<close> in
  milliseconds when \<open>t\<close> is positive and \<open>now\<close> exceeds it, and is left as it was
  otherwise. The quotients are computed in \<open>double\<close>, each operation rounded, and the
  result rounded to \<open>float\<close>. Both new values are functions of this notification and the
  previous timestamp alone, not averages.
\<close>

theorem updateStats_last_observed:
  "frameCount_' (updateStats now t s) = frameCount_' s + 1
   \<and> (sint (frameCount_' s) < 9223372036854775807 \<longrightarrow>
        sint (frameCount_' (updateStats now t s)) = sint (frameCount_' s) + 1)
   \<and> prevFrameTimestampNs_' (updateStats now t s) = t
   \<and> (0 < sint (prevFrameTimestampNs_' s) \<and> sint (prevFrameTimestampNs_' s) < sint t \<longrightarrow>
        lastFrameRateHz_' (updateStats now t s)
          = round_float (round_double (1 / round_double
              (round_double (real_of_int (sint t - sint (prevFrameTimestampNs_' s)))
                 / 1000000000))))
   \<and> (\<not> (0 < sint (prevFrameTimestampNs_' s) \<and> sint (prevFrameTimestampNs_' s) < sint t) \<longrightarrow>
        lastFrameRateHz_' (updateStats now t s) = lastFrameRateHz_' s)
   \<and> (\<not> (streaming_' s \<and> currentCameraId_' s = cameraId)
        \<and> fst (startPreview cs cameraId surface cb s) \<longrightarrow>
        lastFrameRateHz_' (updateStats now t (snd (startPreview cs cameraId surface cb s))) = 0)
   \<and> (0 < sint t \<and> sint t < sint now \<longrightarrow>
        lastLatencyMs_' (updateStats now t s)
          = round_float (round_double (round_double (real_of_int (sint now - sint t)) / 1000000)))
   \<and> (\<not> (0 < sint t \<and> sint t < sint now) \<longrightarrow>
        lastLatencyMs_' (updateStats now t s) = lastLatencyMs_' s)"
proof -
  have count: "frameCount_' (updateStats now t s) = frameCount_' s + 1"
    and prev: "prevFrameTimestampNs_' (updateStats now t s) = t"
    by (simp_all add: updateStats_def Let_def)
  have count': "sint (frameCount_' (updateStats now t s)) = sint (frameCount_' s) + 1"
    if "sint (frameCount_' s) < 9223372036854775807"
    using sint_succ [OF that] by (simp only: count)
  have rate: "lastFrameRateHz_' (updateStats now t s)
      = round_float (round_double (1 / round_double
          (round_double (real_of_int (sint t - sint (prevFrameTimestampNs_' s))) / 1000000000)))"
    if "0 < sint (prevFrameTimestampNs_' s)" "sint (prevFrameTimestampNs_' s) < sint t"
    using that
    by (simp add: updateStats_def Let_def kNsPerSecond_def round_double_kNsPerSecond double_of_int64_def
        double_div_def float_of_double_def sint_diff_pos)
  have rate': "lastFrameRateHz_' (updateStats now t s) = lastFrameRateHz_' s"
    if "\<not> (0 < sint (prevFrameTimestampNs_' s) \<and> sint (prevFrameTimestampNs_' s) < sint t)"
    using that by (auto simp add: updateStats_def Let_def)
  have first: "lastFrameRateHz_' (updateStats now t (snd (startPreview cs cameraId surface cb s))) = 0"
    if "\<not> (streaming_' s \<and> currentCameraId_' s = cameraId)"
      and "fst (startPreview cs cameraId surface cb s)"
    using started_stats_reset [OF that]
    by (simp add: updateStats_def Let_def)
  have lat: "lastLatencyMs_' (updateStats now t s)
      = round_float (round_double (round_double (real_of_int (sint now - sint t)) / 1000000))"
    if "0 < sint t" "sint t < sint now"
    using that
    by (simp add: updateStats_def Let_def kNsToMs_def double_of_int64_def
        double_div_def float_of_double_def sint_diff_pos)
  have lat': "lastLatencyMs_' (updateStats now t s) = lastLatencyMs_' s"
    if "\<not> (0 < sint t \<and> sint t < sint now)"
    using that by (auto simp add: updateStats_def Let_def)
  from count count' prev rate rate' first lat lat' show ?thesis by simp
qed

text \<open>
  Frames 16 ms apart are stored as 62.5 Hz, and a frame read 5 ms after its capture as
  5 ms. An interval of 3 ns is stored as 333333344 Hz, the \<open>float\<close> nearest to the
  reciprocal; one of 16666667 ns as 60 Hz; a latency of 999998 ns as the \<open>float\<close>
  8388591 / 8388608.
\<close>

theorem updateStats_last_observed_witness:
  "sint (frameCount_' one_frame_stream) < 9223372036854775807
   \<and> 0 < sint (prevFrameTimestampNs_' one_frame_stream)
   \<and> sint (prevFrameTimestampNs_' one_frame_stream) < sint (20000000 :: 64 word)
   \<and> frameCount_' (updateStats 25000000 20000000 one_frame_stream) = 2
   \<and> sint (frameCount_' (updateStats 25000000 20000000 one_frame_stream)) = 2
   \<and> lastFrameRateHz_' (updateStats 25000000 20000000 one_frame_stream) = 125 / 2
   \<and> lastLatencyMs_' (updateStats 25000000 20000000 one_frame_stream) = 5
   \<and> lastFrameRateHz_' (updateStats 4000004 4000003 one_frame_stream) = 333333344
   \<and> lastFrameRateHz_' (updateStats 21666665 20666667 one_frame_stream) = 60
   \<and> lastLatencyMs_' (updateStats 21666665 20666667 one_frame_stream) = 8388591 / 8388608
   \<and> \<not> (0 < sint (prevFrameTimestampNs_' streaming_stream))
   \<and> lastFrameRateHz_' (updateStats 5000000 4000000 streaming_stream) = 0
   \<and> fst (startPreview service_ok ''0'' (Some 7) None (new_CameraStream (Some 1)))
   \<and> lastFrameRateHz_' (updateStats 5000000 4000000
        (snd (startPreview service_ok ''0'' (Some 7) None (new_CameraStream (Some 1))))) = 0
   \<and> \<not> (0 < sint (0 :: 64 word) \<and> sint (0 :: 64 word) < sint (5000000 :: 64 word))
   \<and> lastLatencyMs_' (updateStats 5000000 0 one_frame_stream) = 1"
proof -
  have started: "fst (startPreview service_ok ''0'' (Some 7) None (new_CameraStream (Some 1)))"
    by (simp add: start_defs)
  have fresh: "\<not> (streaming_' (new_CameraStream (Some 1))
      \<and> currentCameraId_' (new_CameraStream (Some 1)) = ''0'')"
    by (simp add: new_CameraStream_def)
  have ms: "round_float (round_double (round_double 1000000 / 1000000)) = 1"
      "round_float (round_double (round_double 5000000 / 1000000)) = 5"
      "round_float (round_double (round_double 999998 / 1000000)) = 8388591 / 8388608"
    by code_simp+
  have hz: "round_float (round_double (1 / round_double (round_double 16000000 / 1000000000)))
        = 125 / 2"
      "round_float (round_double (1 / round_double (round_double 3 / 1000000000))) = 333333344"
      "round_float (round_double (1 / round_double (round_double 16666667 / 1000000000))) = 60"
    by code_simp+
  have one: "prevFrameTimestampNs_' one_frame_stream = 4000000"
      "lastLatencyMs_' one_frame_stream = 1" "frameCount_' one_frame_stream = 1"
    by (simp_all add: one_frame_stream_def onCaptureStarted_def streaming_stream_eq
        updateStats_def Let_def kNsToMs_def double_of_int64_def double_div_def
        float_of_double_def ms)
  have zero: "prevFrameTimestampNs_' streaming_stream = 0"
      "lastFrameRateHz_' streaming_stream = 0"
    by (simp_all add: streaming_stream_eq)
  from updateStats_last_observed [of 25000000 20000000 one_frame_stream "''0''" service_ok "Some 7" None]
    updateStats_last_observed [of 4000004 4000003 one_frame_stream "''0''" service_ok "Some 7" None]
    updateStats_last_observed [of 21666665 20666667 one_frame_stream "''0''" service_ok "Some 7" None]
    updateStats_last_observed [of 5000000 4000000 streaming_stream "''0''" service_ok "Some 7" None]
    updateStats_last_observed [of 5000000 4000000 "new_CameraStream (Some 1)" "''0''" service_ok "Some 7" None]
    updateStats_last_observed [of 5000000 0 one_frame_stream "''0''" service_ok "Some 7" None]
    started fresh
  show ?thesis
    by (simp add: one zero ms hz)
qed

text \<open>
  The claim as it was stated fails for a timestamp that is not positive: with \<open>t = 0\<close>
  and \<open>now = 5000000\<close> the boot time exceeds the timestamp, and the stored latency stays
  at the 1 ms of the notification before instead of becoming 5 ms.
\<close>

theorem updateStats_latency_counterexample:
  "sint (0 :: 64 word) < sint (5000000 :: 64 word)
   \<and> lastLatencyMs_' one_frame_stream = 1
   \<and> lastLatencyMs_' (onCaptureStarted 5000000 0 one_frame_stream) = 1
   \<and> float_of_double (double_div (double_of_int64 (5000000 - 0)) kNsToMs) = 5
   \<and> lastLatencyMs_' (onCaptureStarted 5000000 0 one_frame_stream)
       \<noteq> float_of_double (double_div (double_of_int64 (5000000 - 0)) kNsToMs)"
proof -
  have ms: "round_float (round_double (round_double 1000000 / 1000000)) = 1"
      "round_float (round_double (round_double 5000000 / 1000000)) = 5"
    by code_simp+
  have one: "lastLatencyMs_' one_frame_stream = 1"
    by (simp add: one_frame_stream_def onCaptureStarted_def streaming_stream_eq
        updateStats_def Let_def kNsToMs_def double_of_int64_def double_div_def
        float_of_double_def ms)
  have two: "lastLatencyMs_' (onCaptureStarted 5000000 0 one_frame_stream) = 1"
    by (simp add: onCaptureStarted_def updateStats_def Let_def one)
  have five: "float_of_double (double_div (double_of_int64 (5000000 - 0)) kNsToMs) = 5"
    by (simp add: kNsToMs_def double_of_int64_def double_div_def float_of_double_def ms)
  from one two five show ?thesis by simp
qed

section \<open>Properties of the camera registry\<close>






section \<open>Properties of the inertial engine\<close>

lemma register_accel_simps [simp]:
  "running_' (register_accel s) = running_' s"
  "sensorThread_' (register_accel s) = sensorThread_' s"
  "callback_' (register_accel s) = callback_' s"
  "targetAccelHandle_' (register_accel s) = targetAccelHandle_' s"
  "targetGyroHandle_' (register_accel s) = targetGyroHandle_' s"
  "sensorManager_' (register_accel s) = sensorManager_' s"
  "currentAccel_' (register_accel s) = currentAccel_' s"
  "currentGyro_' (register_accel s) = currentGyro_' s"
  by (simp_all add: register_accel_def split: option.split)

lemma register_gyro_simps [simp]:
  "running_' (register_gyro s) = running_' s"
  "sensorThread_' (register_gyro s) = sensorThread_' s"
  "callback_' (register_gyro s) = callback_' s"
  "targetAccelHandle_' (register_gyro s) = targetAccelHandle_' s"
  "targetGyroHandle_' (register_gyro s) = targetGyroHandle_' s"
  "sensorManager_' (register_gyro s) = sensorManager_' s"
  "currentAccel_' (register_gyro s) = currentAccel_' s"
  "currentGyro_' (register_gyro s) = currentGyro_' s"
  by (simp_all add: register_gyro_def split: option.split)

lemma looping_engine_eq:
  "looping_engine =
     \<lparr>running_' = True, sensorThread_' = Looping, callback_' = Some 1,
      targetAccelHandle_' = - 1, targetGyroHandle_' = - 1, needsSensorSwitch_' = False,
      sensorManager_' = Some 2, looper_' = Some 20, eventQueue_' = Some 21,
      currentAccel_' = Some accel0, currentGyro_' = Some gyro0,
      latestAccel_' = zero_sample, latestGyro_' = zero_sample,
      statsWindowStart_' = 0, accelCount_' = 0, gyroCount_' = 0,
      accelLatencyTotal_' = 0, gyroLatencyTotal_' = 0,
      accelMinDelay_' = 2000, accelFifo_' = 300, gyroMinDelay_' = 1000, gyroFifo_' = 0,
      called_back_' = []\<rparr>"
  by (simp add: looping_engine_def sensorThreadLoop_enter_def start_def new_ImuManager_def
      platform3_def Let_def register_accel_def register_gyro_def ASENSOR_TYPE_ACCELEROMETER_def ASENSOR_TYPE_GYROSCOPE_def
      accel0_def gyro0_def)

lemma engine_with_event_stats:
  "statsWindowStart_' engine_with_event = 0" "accelCount_' engine_with_event = 1"
  "gyroCount_' engine_with_event = 0" "accelLatencyTotal_' engine_with_event = 1000000"
  "gyroLatencyTotal_' engine_with_event = 0" "running_' engine_with_event"
  by (simp_all add: engine_with_event_def looping_engine_eq accel_event_def accel0_def
      gyro0_def Let_def)

lemma targets_start [simp]:
  "targetAccelHandle_' (start now cb s) = targetAccelHandle_' s"
  "targetGyroHandle_' (start now cb s) = targetGyroHandle_' s"
  by (simp_all add: start_def)

lemma targets_enter [simp]:
  "targetAccelHandle_' (sensorThreadLoop_enter pf s) = targetAccelHandle_' s"
  "targetGyroHandle_' (sensorThreadLoop_enter pf s) = targetGyroHandle_' s"
  by (simp_all add: sensorThreadLoop_enter_def Let_def)

lemma targets_stop [simp]:
  "targetAccelHandle_' (stop pf s) = targetAccelHandle_' s"
  "targetGyroHandle_' (stop pf s) = targetGyroHandle_' s"
  by (simp_all add: stop_def join_worker_def sensorThreadLoop_exit_def Let_def
      split: thread_state.split)

lemma targets_switchSensors:
  "targetAccelHandle_' (switchSensors now pf a g s) = a"
  "targetGyroHandle_' (switchSensors now pf a g s) = g"
  by (simp_all add: switchSensors_def Let_def)

lemma enter_resolves:
  assumes "ALooper_prepare_r pf \<noteq> None" and "createEventQueue_r pf \<noteq> None"
  shows "currentAccel_' (sensorThreadLoop_enter pf s)
      = (if 0 \<le> targetAccelHandle_' s \<and> targetAccelHandle_' s < int (length (sensorList pf))
         then Some (sensorList pf ! nat (targetAccelHandle_' s))
         else defaultSensor pf ASENSOR_TYPE_ACCELEROMETER)"
    and "currentGyro_' (sensorThreadLoop_enter pf s)
      = (if 0 \<le> targetGyroHandle_' s \<and> targetGyroHandle_' s < int (length (sensorList pf))
         then Some (sensorList pf ! nat (targetGyroHandle_' s))
         else defaultSensor pf ASENSOR_TYPE_GYROSCOPE)"
    and "sensorThread_' (sensorThreadLoop_enter pf s) = Looping"
proof -
  from assms obtain l q where "ALooper_prepare_r pf = Some l" "createEventQueue_r pf = Some q"
    by auto
  then show "currentAccel_' (sensorThreadLoop_enter pf s)
      = (if 0 \<le> targetAccelHandle_' s \<and> targetAccelHandle_' s < int (length (sensorList pf))
         then Some (sensorList pf ! nat (targetAccelHandle_' s))
         else defaultSensor pf ASENSOR_TYPE_ACCELEROMETER)"
    and "currentGyro_' (sensorThreadLoop_enter pf s)
      = (if 0 \<le> targetGyroHandle_' s \<and> targetGyroHandle_' s < int (length (sensorList pf))
         then Some (sensorList pf ! nat (targetGyroHandle_' s))
         else defaultSensor pf ASENSOR_TYPE_GYROSCOPE)"
    and "sensorThread_' (sensorThreadLoop_enter pf s) = Looping"
    by (simp_all add: sensorThreadLoop_enter_def Let_def)
qed

lemma drainEvents_accel:
  assumes "currentAccel_' s = Some a"
  shows "accelCount_' (drainEvents now evs s)
      = accelCount_' s + of_nat (length (filter (\<lambda>e. event_type e = sensor_type a) evs))
    \<and> accelLatencyTotal_' (drainEvents now evs s)
      = accelLatencyTotal_' s
        + (\<Sum>e\<leftarrow>filter (\<lambda>e. event_type e = sensor_type a) evs. now - event_timestamp e)
    \<and> statsWindowStart_' (drainEvents now evs s) = statsWindowStart_' s"
  using assms
proof (induction evs arbitrary: s)
  case Nil
  then show ?case by simp
next
  case (Cons e evs)
  show ?case
    by (simp add: Let_def Cons.prems Cons.IH split: option.split)
qed

text \<open>The \<open>int32_t\<close> event count wraps at its largest value.\<close>

lemma drainEvents_count_wraps:
  "sint (accelCount_' (drainEvents 500000000 [accel_event]
      (looping_engine\<lparr>accelCount_' := 2147483647\<rparr>))) = - 2147483648"
  by (simp add: looping_engine_eq accel_event_def accel0_def gyro0_def Let_def)

lemma drainEvents_thread [simp]:
  "running_' (drainEvents now evs s) = running_' s"
  "sensorThread_' (drainEvents now evs s) = sensorThread_' s"
  by (induction evs arbitrary: s) (simp_all add: Let_def split: option.split)

lemma join_worker_thread [simp]: "sensorThread_' (join_worker pf s) = NoThread"
  by (simp add: join_worker_def Let_def)

lemma thread_joined_when_stopped_kept:
  "thread_joined_when_stopped (new_ImuManager mgr)"
  "thread_joined_when_stopped s \<Longrightarrow> thread_joined_when_stopped (start now cb s)"
  "thread_joined_when_stopped s \<Longrightarrow> thread_joined_when_stopped (stop pf s)"
  "thread_joined_when_stopped s \<Longrightarrow> thread_joined_when_stopped (switchSensors now pf a g s)"
  "running_' s \<Longrightarrow> thread_joined_when_stopped (sensorThreadLoop_enter pf s)"
  "thread_joined_when_stopped s \<Longrightarrow> thread_joined_when_stopped (drainEvents now evs s)"
  "thread_joined_when_stopped s \<Longrightarrow> thread_joined_when_stopped (snd (ImuManager_getStats now s))"
proof -
  show "thread_joined_when_stopped (new_ImuManager mgr)"
    by (simp add: thread_joined_when_stopped_def new_ImuManager_def)
  show stop: "thread_joined_when_stopped (stop pf s)" if "thread_joined_when_stopped s" for s
    using that by (simp add: thread_joined_when_stopped_def stop_def Let_def)
  show start: "thread_joined_when_stopped (start now cb s)"
    if "thread_joined_when_stopped s" for s cb
    using that by (simp add: thread_joined_when_stopped_def start_def)
  show "thread_joined_when_stopped (switchSensors now pf a g s)"
    if "thread_joined_when_stopped s"
  proof -
    let ?s1 = "s\<lparr>targetAccelHandle_' := a, targetGyroHandle_' := g, needsSensorSwitch_' := True\<rparr>"
    from that have "thread_joined_when_stopped ?s1"
      by (simp add: thread_joined_when_stopped_def)
    then show ?thesis
      using start [OF stop, of ?s1] by (simp add: switchSensors_def Let_def)
  qed
  show "thread_joined_when_stopped (sensorThreadLoop_enter pf s)" if "running_' s"
    using that by (simp add: thread_joined_when_stopped_def sensorThreadLoop_enter_def Let_def)
  show "thread_joined_when_stopped (drainEvents now evs s)" if "thread_joined_when_stopped s"
    using that by (simp add: thread_joined_when_stopped_def)
  show "thread_joined_when_stopped (snd (ImuManager_getStats now s))"
    if "thread_joined_when_stopped s"
    using that by (simp add: thread_joined_when_stopped_def ImuManager_getStats_def Let_def)
qed

text \<open>The values that \<open>getStats\<close> returns are finite \<open>float\<close>s.\<close>

lemma getStats_in_range:
  "\<bar>accelFrequencyHz (fst (ImuManager_getStats now s))\<bar> \<le> 2 powi 61"
  "\<bar>gyroFrequencyHz (fst (ImuManager_getStats now s))\<bar> \<le> 2 powi 61"
  "\<bar>accelLatencyMs (fst (ImuManager_getStats now s))\<bar> \<le> 2 powi 63"
  "\<bar>gyroLatencyMs (fst (ImuManager_getStats now s))\<bar> \<le> 2 powi 63"
proof -
  let ?d = "sint (now - statsWindowStart_' s)"
  let ?dt = "round_double (round_double (real_of_int ?d) / 1000000000)"
  have dt: "double_div (double_of_int64 (now - statsWindowStart_' s)) (double_of_int64 kNsPerSecond)
      = ?dt"
    by (simp add: kNsPerSecond_def round_double_kNsPerSecond double_of_int64_def double_div_def)
  have f: "\<bar>round_float (round_double (real_of_int (sint c) / ?dt))\<bar> \<le> 2 powi 61"
    if "0 < ?dt" for c :: "32 word"
  proof -
    from that seconds_pos_iff [of ?d] have "0 < ?d" by (simp add: double_div_def)
    from frequency_range [OF seconds_ge [OF this]] show ?thesis .
  qed
  show "\<bar>accelFrequencyHz (fst (ImuManager_getStats now s))\<bar> \<le> 2 powi 61"
    unfolding ImuManager_getStats_def dt
    using f [of "accelCount_' s"]
    by (simp add: Let_def zero_stats_def double_of_int32_exact float_of_double_def double_div_def)
  show "\<bar>gyroFrequencyHz (fst (ImuManager_getStats now s))\<bar> \<le> 2 powi 61"
    unfolding ImuManager_getStats_def dt
    using f [of "gyroCount_' s"]
    by (simp add: Let_def zero_stats_def double_of_int32_exact float_of_double_def double_div_def)
  show "\<bar>accelLatencyMs (fst (ImuManager_getStats now s))\<bar> \<le> 2 powi 63"
    using mean_latency_range [of "accelCount_' s" "accelLatencyTotal_' s"]
    by (simp add: ImuManager_getStats_def Let_def zero_stats_def double_of_int32_exact
        float_of_double_def double_div_def double_of_int64_def kNsToMs_def)
  show "\<bar>gyroLatencyMs (fst (ImuManager_getStats now s))\<bar> \<le> 2 powi 63"
    using mean_latency_range [of "gyroCount_' s" "gyroLatencyTotal_' s"]
    by (simp add: ImuManager_getStats_def Let_def zero_stats_def double_of_int32_exact
        float_of_double_def double_div_def double_of_int64_def kNsToMs_def)
qed

text \<open>
  Claim C4, amended. \<open>getStats\<close> is a consuming read. The elapsed time is the signed
  64-bit difference of the time of the read and the window start (their exact difference
  when neither is negative). For each channel the rate returned is the event count of
  the window divided by the elapsed seconds, and 0 when the elapsed time is zero or
  negative; the latency is the sum of the latencies recorded in the window
  (\<open>drainEvents\<close> adds boot time minus event timestamp for each event, see
  \<open>drainEvents_accel\<close>) divided by the event count and by the nanoseconds per
  millisecond, and 0 for a channel whose count is not positive. The quotients are
  computed in \<open>double\<close>, each operation rounded, and the result rounded to \<open>float\<close>. The
  read then resets the window: its start is the time of the read and all counts and
  totals are zero. Hence the second of two consecutive reads with no event in between
  returns zero rates and zero latencies, whatever the first returned, and the window of
  the second starts at the time of the first; the first read returns zeros too when its
  window held no event.
\<close>

theorem ImuManager_getStats_consuming:
  "accelFrequencyHz (fst (ImuManager_getStats now s))
     = (if 0 < sint (now - statsWindowStart_' s)
        then round_float (round_double (real_of_int (sint (accelCount_' s))
               / round_double
                   (round_double (real_of_int (sint (now - statsWindowStart_' s))) / 1000000000)))
        else 0)
   \<and> gyroFrequencyHz (fst (ImuManager_getStats now s))
     = (if 0 < sint (now - statsWindowStart_' s)
        then round_float (round_double (real_of_int (sint (gyroCount_' s))
               / round_double
                   (round_double (real_of_int (sint (now - statsWindowStart_' s))) / 1000000000)))
        else 0)
   \<and> (0 \<le> sint (statsWindowStart_' s) \<and> 0 \<le> sint now \<longrightarrow>
        sint (now - statsWindowStart_' s) = sint now - sint (statsWindowStart_' s))
   \<and> accelLatencyMs (fst (ImuManager_getStats now s))
     = (if 0 < sint (accelCount_' s)
        then round_float (round_double (round_double
               (round_double (real_of_int (sint (accelLatencyTotal_' s)))
                  / real_of_int (sint (accelCount_' s))) / 1000000))
        else 0)
   \<and> gyroLatencyMs (fst (ImuManager_getStats now s))
     = (if 0 < sint (gyroCount_' s)
        then round_float (round_double (round_double
               (round_double (real_of_int (sint (gyroLatencyTotal_' s)))
                  / real_of_int (sint (gyroCount_' s))) / 1000000))
        else 0)
   \<and> statsWindowStart_' (snd (ImuManager_getStats now s)) = now
   \<and> accelCount_' (snd (ImuManager_getStats now s)) = 0
   \<and> gyroCount_' (snd (ImuManager_getStats now s)) = 0
   \<and> accelLatencyTotal_' (snd (ImuManager_getStats now s)) = 0
   \<and> gyroLatencyTotal_' (snd (ImuManager_getStats now s)) = 0
   \<and> fst (ImuManager_getStats now' (snd (ImuManager_getStats now s))) = zero_stats
   \<and> (accelCount_' s = 0 \<and> gyroCount_' s = 0 \<longrightarrow>
        fst (ImuManager_getStats now s) = zero_stats)"
proof -
  let ?dt = "double_div (double_of_int64 (now - statsWindowStart_' s)) (double_of_int64 kNsPerSecond)"
  have dt: "?dt = round_double
      (round_double (real_of_int (sint (now - statsWindowStart_' s))) / 1000000000)"
    by (simp add: kNsPerSecond_def round_double_kNsPerSecond double_of_int64_def double_div_def)
  have guard: "0 < ?dt \<longleftrightarrow> 0 < sint (now - statsWindowStart_' s)"
    using seconds_pos_iff [of "sint (now - statsWindowStart_' s)"]
    by (simp add: kNsPerSecond_def round_double_kNsPerSecond double_of_int64_def)
  have af: "accelFrequencyHz (fst (ImuManager_getStats now s))
     = (if 0 < sint (now - statsWindowStart_' s)
        then round_float (round_double (real_of_int (sint (accelCount_' s))
               / round_double
                   (round_double (real_of_int (sint (now - statsWindowStart_' s))) / 1000000000)))
        else 0)"
    unfolding dt [symmetric] guard [symmetric]
    by (simp add: ImuManager_getStats_def Let_def zero_stats_def double_of_int32_exact
        float_of_double_def double_div_def [of _ ?dt])
  have gf: "gyroFrequencyHz (fst (ImuManager_getStats now s))
     = (if 0 < sint (now - statsWindowStart_' s)
        then round_float (round_double (real_of_int (sint (gyroCount_' s))
               / round_double
                   (round_double (real_of_int (sint (now - statsWindowStart_' s))) / 1000000000)))
        else 0)"
    unfolding dt [symmetric] guard [symmetric]
    by (simp add: ImuManager_getStats_def Let_def zero_stats_def double_of_int32_exact
        float_of_double_def double_div_def [of _ ?dt])
  have el: "sint (now - statsWindowStart_' s) = sint now - sint (statsWindowStart_' s)"
    if "0 \<le> sint (statsWindowStart_' s)" "0 \<le> sint now"
    using that by (rule sint_diff_nonneg)
  have al: "accelLatencyMs (fst (ImuManager_getStats now s))
     = (if 0 < sint (accelCount_' s)
        then round_float (round_double (round_double
               (round_double (real_of_int (sint (accelLatencyTotal_' s)))
                  / real_of_int (sint (accelCount_' s))) / 1000000))
        else 0)"
    by (simp add: ImuManager_getStats_def Let_def zero_stats_def double_of_int32_exact
        float_of_double_def double_div_def double_of_int64_def kNsToMs_def)
  have gl: "gyroLatencyMs (fst (ImuManager_getStats now s))
     = (if 0 < sint (gyroCount_' s)
        then round_float (round_double (round_double
               (round_double (real_of_int (sint (gyroLatencyTotal_' s)))
                  / real_of_int (sint (gyroCount_' s))) / 1000000))
        else 0)"
    by (simp add: ImuManager_getStats_def Let_def zero_stats_def double_of_int32_exact
        float_of_double_def double_div_def double_of_int64_def kNsToMs_def)
  have reset: "statsWindowStart_' (snd (ImuManager_getStats now s)) = now"
    "accelCount_' (snd (ImuManager_getStats now s)) = 0"
    "gyroCount_' (snd (ImuManager_getStats now s)) = 0"
    "accelLatencyTotal_' (snd (ImuManager_getStats now s)) = 0"
    "gyroLatencyTotal_' (snd (ImuManager_getStats now s)) = 0"
    by (simp_all add: ImuManager_getStats_def Let_def)
  have empty: "fst (ImuManager_getStats n z) = zero_stats"
    if "accelCount_' z = 0" "gyroCount_' z = 0" for n z
    using that
    by (simp add: ImuManager_getStats_def Let_def zero_stats_def double_of_int32_exact
        float_of_double_def double_div_def round_double_zero round_float_zero)
  from af gf el al gl reset empty [OF reset(2,3)] empty [of s now]
  show ?thesis by simp
qed

text \<open>
  One event in a window of one second is reported as 1 Hz and its latency of one
  millisecond as 1 ms; the same event in a window of three seconds is reported as the
  \<open>float\<close> nearest to a third.
\<close>

theorem ImuManager_getStats_consuming_witness:
  "accelCount_' looping_engine = 0 \<and> gyroCount_' looping_engine = 0
   \<and> fst (ImuManager_getStats 1000000000 looping_engine) = zero_stats
   \<and> fst (ImuManager_getStats 2000000000 (snd (ImuManager_getStats 1000000000 looping_engine)))
       = zero_stats
   \<and> statsWindowStart_' (snd (ImuManager_getStats 1000000000 looping_engine)) = 1000000000
   \<and> 0 \<le> sint (statsWindowStart_' engine_with_event) \<and> 0 \<le> sint (1000000000 :: 64 word)
   \<and> sint (1000000000 - statsWindowStart_' engine_with_event) = 1000000000
   \<and> accelFrequencyHz (fst (ImuManager_getStats 1000000000 engine_with_event)) = 1
   \<and> accelLatencyMs (fst (ImuManager_getStats 1000000000 engine_with_event)) = 1
   \<and> accelFrequencyHz (fst (ImuManager_getStats 3000000000 engine_with_event))
       = 11184811 / 33554432
   \<and> accelFrequencyHz (fst (ImuManager_getStats 0 engine_with_event)) = 0"
proof -
  have r: "round_double 1000000000 = 1000000000" "round_double 1 = 1" "round_float 1 = 1"
    "round_double 1000000 = 1000000" "round_double 3000000000 = 3000000000"
    "round_double 3 = 3" "round_float (round_double (1 / 3)) = 11184811 / 33554432"
    by code_simp+
  have le: "statsWindowStart_' looping_engine = 0" "accelCount_' looping_engine = 0"
    "gyroCount_' looping_engine = 0"
    by (simp_all add: looping_engine_eq)
  from ImuManager_getStats_consuming [of 1000000000 looping_engine 2000000000]
    ImuManager_getStats_consuming [of 1000000000 engine_with_event 2000000000]
    ImuManager_getStats_consuming [of 3000000000 engine_with_event 2000000000]
    ImuManager_getStats_consuming [of 0 engine_with_event 2000000000]
  show ?thesis
    by (simp add: engine_with_event_stats le r round_double_zero round_float_zero)
qed

text \<open>
  The claim as it was stated says that both reads return zero. With one accelerometer
  event in the window before the first read, the first read returns 1 Hz and 1 ms and
  only the second returns zeros.
\<close>

theorem ImuManager_getStats_first_call_counterexample:
  "fst (ImuManager_getStats 1000000000 engine_with_event)
     = \<lparr>accelFrequencyHz = 1, accelLatencyMs = 1, gyroFrequencyHz = 0, gyroLatencyMs = 0\<rparr>
   \<and> fst (ImuManager_getStats 1000000000 engine_with_event) \<noteq> zero_stats
   \<and> fst (ImuManager_getStats 2000000000
        (snd (ImuManager_getStats 1000000000 engine_with_event))) = zero_stats"
proof -
  have r: "round_double 1000000000 = 1000000000" "round_double 1 = 1"
    "round_double 1000000 = 1000000" "round_float 1 = 1"
    by code_simp+
  have first: "fst (ImuManager_getStats 1000000000 engine_with_event)
     = \<lparr>accelFrequencyHz = 1, accelLatencyMs = 1, gyroFrequencyHz = 0, gyroLatencyMs = 0\<rparr>"
    by (simp add: ImuManager_getStats_def Let_def kNsPerSecond_def kNsToMs_def zero_stats_def
        engine_with_event_stats double_of_int64_def double_of_int32_def double_div_def
        float_of_double_def r round_double_zero round_float_zero)
  have second: "fst (ImuManager_getStats 2000000000
        (snd (ImuManager_getStats 1000000000 engine_with_event))) = zero_stats"
    by (simp add: ImuManager_getStats_def Let_def zero_stats_def double_of_int32_def
        double_div_def float_of_double_def round_double_zero round_float_zero)
  from first second show ?thesis by (simp add: zero_stats_def)
qed

text \<open>
  Claim C5. \<open>start()\<close> on a running engine returns the engine as it is: the window start
  and the counters are not reset. \<open>start()\<close> on an engine that is not running and has a
  sensor manager makes it running and resets the statistics window: its start is the
  time of the call and all counts and latency totals are zero. This holds in every state
  of the engine, so after every sequence of \<open>start()\<close> and \<open>stop()\<close> calls.
\<close>

theorem start_resets_only_when_stopped:
  "(running_' s \<longrightarrow> start now callback s = s)
   \<and> (\<not> running_' s \<and> sensorManager_' s \<noteq> None \<longrightarrow>
        running_' (start now callback s)
        \<and> statsWindowStart_' (start now callback s) = now
        \<and> accelCount_' (start now callback s) = 0
        \<and> gyroCount_' (start now callback s) = 0
        \<and> accelLatencyTotal_' (start now callback s) = 0
        \<and> gyroLatencyTotal_' (start now callback s) = 0)"
  by (simp add: start_def)

theorem start_resets_only_when_stopped_witness:
  "running_' engine_with_event
   \<and> start 800000000 (Some 3) engine_with_event = engine_with_event
   \<and> statsWindowStart_' (start 800000000 (Some 3) engine_with_event) = 0
   \<and> accelCount_' (start 800000000 (Some 3) engine_with_event) = 1
   \<and> \<not> running_' (stop platform3 engine_with_event)
   \<and> sensorManager_' (stop platform3 engine_with_event) \<noteq> None
   \<and> running_' (start 800000000 (Some 3) (stop platform3 engine_with_event))
   \<and> statsWindowStart_' (start 800000000 (Some 3) (stop platform3 engine_with_event)) = 800000000
   \<and> accelCount_' (start 800000000 (Some 3) (stop platform3 engine_with_event)) = 0"
proof -
  have r: "running_' engine_with_event"
    by (simp add: engine_with_event_stats)
  have s: "\<not> running_' (stop platform3 engine_with_event)"
      "sensorManager_' (stop platform3 engine_with_event) \<noteq> None"
    by (simp_all add: stop_def join_worker_def sensorThreadLoop_exit_def Let_def
        engine_with_event_def looping_engine_eq accel_event_def accel0_def gyro0_def)
  from start_resets_only_when_stopped [of engine_with_event 800000000 "Some 3"]
    start_resets_only_when_stopped [of "stop platform3 engine_with_event" 800000000 "Some 3"]
    r s
  show ?thesis by (simp add: engine_with_event_stats)
qed


text \<open>
  Claim C9. \<open>switchSensors\<close> records the two selectors and returns nothing to the caller
  (the model has no error result); on a running engine it stops the worker and spawns a
  new one. A worker that gets its looper and event queue resolves each selector, right
  after the switch or after a later \<open>start()\<close>: a handle in the range from 0 up to the
  catalog size selects the sensor at that index of the catalog, and any other handle,
  -1 included, selects the platform default sensor of the channel.
\<close>

theorem switchSensors_resolves_selectors:
  assumes "ALooper_prepare_r pf \<noteq> None" and "createEventQueue_r pf \<noteq> None"
  shows "targetAccelHandle_' (switchSensors now pf a g s) = a
    \<and> targetGyroHandle_' (switchSensors now pf a g s) = g
    \<and> (running_' s \<and> sensorManager_' s \<noteq> None \<longrightarrow>
         running_' (switchSensors now pf a g s)
         \<and> sensorThread_' (switchSensors now pf a g s) = Spawned)
    \<and> (0 \<le> a \<and> a < int (length (sensorList pf)) \<longrightarrow>
         currentAccel_' (sensorThreadLoop_enter pf (switchSensors now pf a g s))
           = Some (sensorList pf ! nat a))
    \<and> (\<not> (0 \<le> a \<and> a < int (length (sensorList pf))) \<longrightarrow>
         currentAccel_' (sensorThreadLoop_enter pf (switchSensors now pf a g s))
           = defaultSensor pf ASENSOR_TYPE_ACCELEROMETER)
    \<and> (0 \<le> g \<and> g < int (length (sensorList pf)) \<longrightarrow>
         currentGyro_' (sensorThreadLoop_enter pf (switchSensors now pf a g s))
           = Some (sensorList pf ! nat g))
    \<and> (\<not> (0 \<le> g \<and> g < int (length (sensorList pf))) \<longrightarrow>
         currentGyro_' (sensorThreadLoop_enter pf (switchSensors now pf a g s))
           = defaultSensor pf ASENSOR_TYPE_GYROSCOPE)
    \<and> currentAccel_' (sensorThreadLoop_enter pf (start now' cb (switchSensors now pf a g s)))
         = currentAccel_' (sensorThreadLoop_enter pf (switchSensors now pf a g s))
    \<and> currentGyro_' (sensorThreadLoop_enter pf (start now' cb (switchSensors now pf a g s)))
         = currentGyro_' (sensorThreadLoop_enter pf (switchSensors now pf a g s))"
proof -
  have "running_' (switchSensors now pf a g s)
      \<and> sensorThread_' (switchSensors now pf a g s) = Spawned"
    if "running_' s" "sensorManager_' s \<noteq> None"
  proof -
    let ?s1 = "s\<lparr>targetAccelHandle_' := a, targetGyroHandle_' := g, needsSensorSwitch_' := True\<rparr>"
    have "\<not> running_' (stop pf ?s1)" "sensorManager_' (stop pf ?s1) \<noteq> None"
      using that
      by (simp_all add: stop_def join_worker_def sensorThreadLoop_exit_def
          sensorThreadLoop_enter_def Let_def split: thread_state.split)
    then show ?thesis using that
      by (simp add: switchSensors_def Let_def start_def)
  qed
  then show ?thesis
    by (simp add: enter_resolves [OF assms] targets_switchSensors)
qed

theorem switchSensors_resolves_selectors_witness:
  "ALooper_prepare_r platform3 \<noteq> None \<and> createEventQueue_r platform3 \<noteq> None
   \<and> running_' engine_with_event \<and> sensorManager_' engine_with_event \<noteq> None
   \<and> sensorThread_' (switchSensors 7 platform3 2 (- 1) engine_with_event) = Spawned
   \<and> (0::int) \<le> 2 \<and> (2::int) < int (length (sensorList platform3))
   \<and> currentAccel_' (sensorThreadLoop_enter platform3
        (switchSensors 7 platform3 2 (- 1) engine_with_event)) = Some accel_uncal
   \<and> \<not> (0 \<le> (- 1::int) \<and> (- 1::int) < int (length (sensorList platform3)))
   \<and> currentGyro_' (sensorThreadLoop_enter platform3
        (switchSensors 7 platform3 2 (- 1) engine_with_event)) = Some gyro0
   \<and> \<not> (0 \<le> (3::int) \<and> (3::int) < int (length (sensorList platform3)))
   \<and> currentAccel_' (sensorThreadLoop_enter platform3
        (switchSensors 7 platform3 3 1 engine_with_event)) = Some accel0
   \<and> currentGyro_' (sensorThreadLoop_enter platform3
        (switchSensors 7 platform3 3 1 engine_with_event)) = Some gyro0"
proof -
  have p: "ALooper_prepare_r platform3 \<noteq> None" "createEventQueue_r platform3 \<noteq> None"
    by (simp_all add: platform3_def)
  have r: "running_' engine_with_event" "sensorManager_' engine_with_event \<noteq> None"
    by (simp_all add: engine_with_event_def looping_engine_eq accel_event_def accel0_def
        gyro0_def Let_def)
  have l: "sensorList platform3 = [accel0, gyro0, accel_uncal]"
    "defaultSensor platform3 ASENSOR_TYPE_ACCELEROMETER = Some accel0"
    "defaultSensor platform3 ASENSOR_TYPE_GYROSCOPE = Some gyro0"
    by (simp_all add: platform3_def ASENSOR_TYPE_ACCELEROMETER_def ASENSOR_TYPE_GYROSCOPE_def)
  from switchSensors_resolves_selectors [OF p, of 7 2 "- 1" engine_with_event]
    switchSensors_resolves_selectors [OF p, of 7 3 1 engine_with_event]
    p r
  show ?thesis by (simp add: l)
qed



section \<open>Properties of the ring buffer\<close>

lemma and_kMask: "n AND kMask (2 ^ k) = n mod 2 ^ k"
proof -
  have "n AND kMask (2 ^ k) = n AND mask k"
    by (simp add: kMask_def mask_eq_exp_minus_1)
  also have "\<dots> = take_bit k n"
    by (simp add: take_bit_eq_mask)
  also have "\<dots> = n mod 2 ^ k"
    by (simp add: take_bit_eq_mod)
  finally show ?thesis .
qed

lemma size_rb_mod:
  assumes "k < 64" and "rb_wf (2 ^ k) rb"
  shows "size_rb (2 ^ k) rb = (head_' rb + 2 ^ k - tail_' rb) mod 2 ^ k"
proof -
  let ?C = "(2::nat) ^ k" and ?h = "head_' rb" and ?t = "tail_' rb"
  from assms have h: "?h < ?C" and t: "?t < ?C" by (simp_all add: rb_wf_def)
  from \<open>k < 64\<close> have k: "k \<le> 64" by simp
  then have le: "?C \<le> 2 ^ 64" by (rule power_increasing) simp
  from k have dvd: "?C dvd 2 ^ 64" by (rule le_imp_power_dvd)
  then obtain m where m: "(2::nat) ^ 64 = ?C * m" by (auto simp: dvd_def)
  with le have "m \<ge> 1" by (cases m) auto
  have "size_rb ?C rb = (?h + 2 ^ 64 - ?t) mod 2 ^ 64 mod ?C"
    by (simp add: size_rb_def size_t_sub_def and_kMask)
  also have "\<dots> = (?h + 2 ^ 64 - ?t) mod ?C"
    using dvd by (rule mod_mod_cancel)
  also have "\<dots> = (?h + ?C * m - ?t) mod ?C"
    by (simp only: m)
  also have "?h + ?C * m - ?t = (?h + ?C - ?t) + ?C * (m - 1)"
  proof -
    from \<open>m \<ge> 1\<close> have "?C * m = ?C + ?C * (m - 1)"
      by (cases m) simp_all
    with t show ?thesis by linarith
  qed
  also have "\<dots> mod ?C = (?h + ?C - ?t) mod ?C"
    by simp
  finally show ?thesis .
qed


lemma mod_wrap:
  fixes C :: nat
  assumes "a < 2 * C"
  shows "a mod C = (if a < C then a else a - C)"
  using assms by (auto simp: mod_if)

lemma size_rb_cases:
  assumes "k < 64" and "rb_wf (2 ^ k) rb"
  shows "size_rb (2 ^ k) rb
    = (if tail_' rb \<le> head_' rb then head_' rb - tail_' rb
       else head_' rb + 2 ^ k - tail_' rb)"
proof -
  from assms(2) have "head_' rb < 2 ^ k" "tail_' rb < 2 ^ k" by (simp_all add: rb_wf_def)
  then show ?thesis
    unfolding size_rb_mod [OF assms] by (subst mod_wrap) auto
qed

lemma next_index:
  assumes "i < (2::nat) ^ k"
  shows "(i + 1) AND kMask (2 ^ k) = (if i + 1 < 2 ^ k then i + 1 else 0)"
    and "Suc i AND kMask (2 ^ k) = (if Suc i < 2 ^ k then Suc i else 0)"
  using assms unfolding and_kMask by (subst mod_wrap; auto)+

lemma slot_index:
  assumes "t < (C::nat)" and "i < C"
  shows "(t + i) mod C = (if t + i < C then t + i else t + i - C)"
  using assms by (subst mod_wrap) auto


lemma size_rb_less:
  assumes "k < 64" and "rb_wf (2 ^ k) rb"
  shows "size_rb (2 ^ k) rb < 2 ^ k"
  unfolding size_rb_mod [OF assms] by simp

lemma push_full_iff:
  assumes "k < 64" and "rb_wf (2 ^ k) rb"
  shows "\<not> fst (push (2 ^ k) x rb) \<longleftrightarrow> size_rb (2 ^ k) rb = 2 ^ k - 1"
proof -
  from assms(2) have "head_' rb < 2 ^ k" "tail_' rb < 2 ^ k" by (simp_all add: rb_wf_def)
  then show ?thesis
    by (auto simp: push_def Let_def size_rb_cases [OF assms] next_index split: if_splits)
qed

lemma next_index_less: "n AND kMask (2 ^ k) < 2 ^ k"
  by (simp add: and_kMask)

lemma push_wf:
  assumes "rb_wf (2 ^ k) rb"
  shows "rb_wf (2 ^ k) (snd (push (2 ^ k) x rb))"
  using assms by (simp add: push_def Let_def rb_wf_def next_index_less)

lemma pushOverwrite_wf:
  assumes "rb_wf (2 ^ k) rb"
  shows "rb_wf (2 ^ k) (pushOverwrite (2 ^ k) x rb)"
  using assms by (simp add: pushOverwrite_def Let_def rb_wf_def next_index_less)

lemma pop_wf:
  assumes "rb_wf (2 ^ k) rb"
  shows "rb_wf (2 ^ k) (snd (pop (2 ^ k) rb))"
  using assms by (simp add: pop_def Let_def rb_wf_def next_index_less)

lemma length_contents: "length (contents C rb) = size_rb C rb"
  by (simp add: contents_def)

lemma push_contents:
  assumes k: "k < 64" and wf: "rb_wf (2 ^ k) rb" and ok: "fst (push (2 ^ k) x rb)"
  shows "contents (2 ^ k) (snd (push (2 ^ k) x rb)) = contents (2 ^ k) rb @ [x]"
proof -
  let ?C = "(2::nat) ^ k"
  let ?rb' = "snd (push ?C x rb)"
  from wf have h: "head_' rb < ?C" and t: "tail_' rb < ?C" and len: "length (buffer_' rb) = ?C"
    by (simp_all add: rb_wf_def)
  have wf': "rb_wf ?C ?rb'" using wf by (rule push_wf)
  from ok have nf: "(head_' rb + 1) AND kMask ?C \<noteq> tail_' rb"
    by (auto simp: push_def Let_def split: if_splits)
  then have rb': "?rb' = rb\<lparr>buffer_' := (buffer_' rb)[head_' rb := x],
      head_' := (head_' rb + 1) AND kMask ?C\<rparr>"
    by (simp add: push_def Let_def)
  have buf': "buffer_' ?rb' = (buffer_' rb)[head_' rb := x]"
    and tl': "tail_' ?rb' = tail_' rb"
    by (simp_all add: rb')
  have sz: "size_rb ?C ?rb' = size_rb ?C rb + 1"
    using h t nf unfolding size_rb_cases [OF k wf'] size_rb_cases [OF k wf]
    by (auto simp: rb' next_index split: if_splits)
  show ?thesis
  proof (rule nth_equalityI)
    show "length (contents ?C ?rb') = length (contents ?C rb @ [x])"
      by (simp add: length_contents sz)
  next
    fix i assume "i < length (contents ?C ?rb')"
    then have i: "i < size_rb ?C rb + 1" by (simp add: length_contents sz)
    have iC: "i < ?C" using i size_rb_less [OF k wf] by simp
    show "contents ?C ?rb' ! i = (contents ?C rb @ [x]) ! i"
    proof (cases "i < size_rb ?C rb")
      case True
      then have "(tail_' rb + i) mod ?C \<noteq> head_' rb"
        using h t iC unfolding size_rb_cases [OF k wf] slot_index [OF t iC]
        by (auto split: if_splits)
      with True i show ?thesis
        by (simp add: contents_def sz buf' tl' nth_append)
    next
      case False
      with i have ieq: "i = size_rb ?C rb" by simp
      then have "(tail_' rb + i) mod ?C = head_' rb"
        using h t iC unfolding size_rb_cases [OF k wf] slot_index [OF t iC]
        by (auto split: if_splits)
      with ieq h len show ?thesis
        by (simp add: contents_def sz buf' tl' nth_append)
    qed
  qed
qed


lemma size_rb_zero_iff:
  assumes "k < 64" and "rb_wf (2 ^ k) rb"
  shows "size_rb (2 ^ k) rb = 0 \<longleftrightarrow> head_' rb = tail_' rb"
proof -
  from assms(2) have "head_' rb < 2 ^ k" "tail_' rb < 2 ^ k" by (simp_all add: rb_wf_def)
  then show ?thesis
    unfolding size_rb_cases [OF assms] by auto
qed

lemma pop_empty:
  assumes "k < 64" and "rb_wf (2 ^ k) rb" and "contents (2 ^ k) rb = []"
  shows "pop (2 ^ k) rb = (None, rb)"
proof -
  from assms(3) have "size_rb (2 ^ k) rb = 0"
    using length_contents [of "2 ^ k" rb] by simp
  with size_rb_zero_iff [OF assms(1,2)] show ?thesis
    by (simp add: pop_def)
qed

lemma pop_contents:
  assumes k: "k < 64" and wf: "rb_wf (2 ^ k) rb" and ne: "head_' rb \<noteq> tail_' rb"
  shows "fst (pop (2 ^ k) rb) = Some (buffer_' rb ! tail_' rb)"
    and "contents (2 ^ k) rb = buffer_' rb ! tail_' rb # contents (2 ^ k) (snd (pop (2 ^ k) rb))"
proof -
  let ?C = "(2::nat) ^ k"
  let ?rb' = "snd (pop ?C rb)"
  from wf have h: "head_' rb < ?C" and t: "tail_' rb < ?C"
    by (simp_all add: rb_wf_def)
  have wf': "rb_wf ?C ?rb'" using wf by (rule pop_wf)
  from ne have rb': "?rb' = rb\<lparr>tail_' := (tail_' rb + 1) AND kMask ?C\<rparr>"
    by (simp add: pop_def Let_def)
  have buf': "buffer_' ?rb' = buffer_' rb"
    and tl': "tail_' ?rb' = (tail_' rb + 1) mod ?C"
    by (simp_all add: rb' and_kMask)
  from ne show "fst (pop ?C rb) = Some (buffer_' rb ! tail_' rb)"
    by (simp add: pop_def Let_def)
  have pos: "0 < size_rb ?C rb"
    using size_rb_zero_iff [OF k wf] ne by simp
  have sz: "size_rb ?C rb = Suc (size_rb ?C ?rb')"
    using h t ne unfolding size_rb_cases [OF k wf'] size_rb_cases [OF k wf]
    by (auto simp: rb' next_index split: if_splits)
  have shift: "(tail_' ?rb' + i) mod ?C = (tail_' rb + Suc i) mod ?C" for i
    unfolding tl' by (simp add: mod_add_left_eq)
  have "contents ?C rb
      = map (\<lambda>i. buffer_' rb ! ((tail_' rb + i) mod ?C)) (0 # map Suc [0..<size_rb ?C ?rb'])"
    unfolding contents_def sz by (simp only: upt_conv_Cons [of 0] map_Suc_upt zero_less_Suc if_True)
  also have "\<dots> = buffer_' rb ! tail_' rb # contents ?C ?rb'"
    using t by (simp add: contents_def buf' shift o_def)
  finally show "contents ?C rb = buffer_' rb ! tail_' rb # contents ?C ?rb'" .
qed

lemma pushOverwrite_not_full:
  assumes "fst (push C x rb)"
  shows "pushOverwrite C x rb = snd (push C x rb)"
  using assms by (auto simp: push_def pushOverwrite_def Let_def split: if_splits)

lemma pushOverwrite_full:
  assumes k: "k < 64" and k1: "0 < k" and wf: "rb_wf (2 ^ k) rb"
    and full: "\<not> fst (push (2 ^ k) x rb)"
  shows "head_' rb \<noteq> tail_' rb"
    and "fst (push (2 ^ k) x (snd (pop (2 ^ k) rb)))"
    and "pushOverwrite (2 ^ k) x rb = snd (push (2 ^ k) x (snd (pop (2 ^ k) rb)))"
proof -
  let ?C = "(2::nat) ^ k"
  from wf have h: "head_' rb < ?C" and t: "tail_' rb < ?C"
    by (simp_all add: rb_wf_def)
  from k1 have C2: "2 \<le> ?C"
    using power_increasing [of 1 k "2::nat"] by simp
  from full have nh: "(head_' rb + 1) AND kMask ?C = tail_' rb"
    by (auto simp: push_def Let_def split: if_splits)
  with h t C2 show ne: "head_' rb \<noteq> tail_' rb"
    by (auto simp: next_index split: if_splits)
  have nt: "(tail_' rb + 1) AND kMask ?C \<noteq> tail_' rb"
    using t C2 by (auto simp: next_index split: if_splits)
  from ne nh nt show "fst (push ?C x (snd (pop ?C rb)))"
    by (simp add: push_def pop_def Let_def)
  from ne nh nt show "pushOverwrite ?C x rb = snd (push ?C x (snd (pop ?C rb)))"
    by (simp add: push_def pop_def pushOverwrite_def Let_def)
qed


lemma three_pushed_eq: "three_pushed = \<lparr>buffer_' = [1, 2, 3, 0], head_' = 3, tail_' = 0\<rparr>"
  by code_simp

lemma rb_wf_new:
  assumes "length storage = 2 ^ k"
  shows "rb_wf (2 ^ k) (new_RingBuffer storage)"
  using assms by (simp add: rb_wf_def new_RingBuffer_def)

lemma two_less: "(2::nat) < 64"
  by simp

lemma three_pushed_wf: "rb_wf (2 ^ 2) three_pushed"
  by (simp add: three_pushed_eq rb_wf_def)

lemma three_pushed_size: "size_rb (2 ^ 2) three_pushed = 3"
  unfolding size_rb_cases [OF two_less three_pushed_wf] by (simp add: three_pushed_eq)

lemma three_pushed_contents: "contents (2 ^ 2) three_pushed = [1, 2, 3]"
  unfolding contents_def three_pushed_size by (simp add: three_pushed_eq upt_rec)

lemma new_buffer_wf: "rb_wf (2 ^ 2) (new_RingBuffer [0, 0, 0, 0::nat])"
  by (simp add: new_RingBuffer_def rb_wf_def)

lemma new_buffer_size: "size_rb (2 ^ 2) (new_RingBuffer [0, 0, 0, 0::nat]) = 0"
  unfolding size_rb_cases [OF two_less new_buffer_wf] by (simp add: new_RingBuffer_def)

lemma new_buffer_contents: "contents (2 ^ 2) (new_RingBuffer [0, 0, 0, 0::nat]) = []"
  unfolding contents_def new_buffer_size by simp

text \<open>
  Claim C10. Take a \<open>RingBuffer\<close> whose capacity is a power of two (one that fits a
  \<open>size_t\<close>), used by one thread, in any state with an array of that many slots and
  both indices inside it; a new buffer is in such a state and the operations keep it
  (\<open>rb_wf_new\<close>). \<open>push\<close> returns false exactly when the buffer holds capacity minus one
  elements, and then leaves the buffer unchanged; otherwise it appends the element. The
  buffer never holds more than capacity minus one elements. \<open>pushOverwrite\<close> always
  writes the element to the head slot; in the full state it advances the tail (and, for
  a capacity of at least two, the buffer then holds the former elements without the
  oldest, followed by the new one); in any other state it appends as \<open>push\<close> does. \<open>pop\<close>
  returns nothing on a buffer without elements and otherwise returns the oldest element
  and removes it: first in, first out.
\<close>

theorem RingBuffer_sequential:
  assumes k: "k < 64" and wf: "rb_wf (2 ^ k) rb"
  shows "(\<not> fst (push (2 ^ k) x rb) \<longleftrightarrow> size_rb (2 ^ k) rb = 2 ^ k - 1)
    \<and> (\<not> fst (push (2 ^ k) x rb) \<longrightarrow> snd (push (2 ^ k) x rb) = rb)
    \<and> (fst (push (2 ^ k) x rb) \<longrightarrow>
         contents (2 ^ k) (snd (push (2 ^ k) x rb)) = contents (2 ^ k) rb @ [x])
    \<and> size_rb (2 ^ k) rb \<le> 2 ^ k - 1
    \<and> length (contents (2 ^ k) rb) = size_rb (2 ^ k) rb
    \<and> rb_wf (2 ^ k) (snd (push (2 ^ k) x rb))
    \<and> rb_wf (2 ^ k) (pushOverwrite (2 ^ k) x rb)
    \<and> rb_wf (2 ^ k) (snd (pop (2 ^ k) rb))
    \<and> buffer_' (pushOverwrite (2 ^ k) x rb) ! head_' rb = x
    \<and> (size_rb (2 ^ k) rb = 2 ^ k - 1 \<longrightarrow>
         tail_' (pushOverwrite (2 ^ k) x rb) = (tail_' rb + 1) AND kMask (2 ^ k)
         \<and> (0 < k \<longrightarrow>
              contents (2 ^ k) (pushOverwrite (2 ^ k) x rb) = tl (contents (2 ^ k) rb) @ [x]))
    \<and> (size_rb (2 ^ k) rb \<noteq> 2 ^ k - 1 \<longrightarrow>
         tail_' (pushOverwrite (2 ^ k) x rb) = tail_' rb
         \<and> contents (2 ^ k) (pushOverwrite (2 ^ k) x rb) = contents (2 ^ k) rb @ [x])
    \<and> (contents (2 ^ k) rb = [] \<longrightarrow> pop (2 ^ k) rb = (None, rb))
    \<and> (contents (2 ^ k) rb \<noteq> [] \<longrightarrow>
         fst (pop (2 ^ k) rb) = Some (hd (contents (2 ^ k) rb))
         \<and> contents (2 ^ k) (snd (pop (2 ^ k) rb)) = tl (contents (2 ^ k) rb))"
proof -
  let ?C = "(2::nat) ^ k"
  from wf have h: "head_' rb < ?C" and len: "length (buffer_' rb) = ?C"
    by (simp_all add: rb_wf_def)
  note full = push_full_iff [OF k wf, of x]
  have 1: "\<not> fst (push ?C x rb) \<longrightarrow> snd (push ?C x rb) = rb"
    by (simp add: push_def Let_def)
  have 2: "fst (push ?C x rb) \<longrightarrow> contents ?C (snd (push ?C x rb)) = contents ?C rb @ [x]"
    using push_contents [OF k wf] by blast
  have 3: "size_rb ?C rb \<le> ?C - 1"
    using size_rb_less [OF k wf] by simp
  have 4: "buffer_' (pushOverwrite ?C x rb) ! head_' rb = x"
    using h len by (simp add: pushOverwrite_def Let_def)
  have 5: "tail_' (pushOverwrite ?C x rb) = (tail_' rb + 1) AND kMask ?C"
    if "size_rb ?C rb = ?C - 1"
  proof -
    from that full have "(head_' rb + 1) AND kMask ?C = tail_' rb"
      by (auto simp: push_def Let_def split: if_splits)
    then show ?thesis by (simp add: pushOverwrite_def Let_def)
  qed
  have 6: "contents ?C (pushOverwrite ?C x rb) = tl (contents ?C rb) @ [x]"
    if "size_rb ?C rb = ?C - 1" "0 < k"
  proof -
    from that full have nf: "\<not> fst (push ?C x rb)" by simp
    note po = pushOverwrite_full [OF k \<open>0 < k\<close> wf nf]
    have "contents ?C (pushOverwrite ?C x rb) = contents ?C (snd (pop ?C rb)) @ [x]"
      unfolding po(3) using push_contents [OF k pop_wf [OF wf] po(2)] .
    also have "contents ?C (snd (pop ?C rb)) = tl (contents ?C rb)"
      using pop_contents(2) [OF k wf po(1)] by simp
    finally show ?thesis .
  qed
  have 7: "tail_' (pushOverwrite ?C x rb) = tail_' rb
      \<and> contents ?C (pushOverwrite ?C x rb) = contents ?C rb @ [x]"
    if "size_rb ?C rb \<noteq> ?C - 1"
  proof -
    from that full have ok: "fst (push ?C x rb)" by simp
    then have "(head_' rb + 1) AND kMask ?C \<noteq> tail_' rb"
      by (auto simp: push_def Let_def split: if_splits)
    then have "tail_' (pushOverwrite ?C x rb) = tail_' rb"
      by (simp add: pushOverwrite_def Let_def)
    with pushOverwrite_not_full [OF ok] push_contents [OF k wf ok] show ?thesis by simp
  qed
  have 8: "contents ?C rb = [] \<longrightarrow> pop ?C rb = (None, rb)"
    using pop_empty [OF k wf] by blast
  have 9: "fst (pop ?C rb) = Some (hd (contents ?C rb))
      \<and> contents ?C (snd (pop ?C rb)) = tl (contents ?C rb)"
    if "contents ?C rb \<noteq> []"
  proof -
    from that have "length (contents ?C rb) \<noteq> 0" by simp
    then have "size_rb ?C rb \<noteq> 0" by (simp add: length_contents)
    with size_rb_zero_iff [OF k wf] have ne: "head_' rb \<noteq> tail_' rb" by simp
    from pop_contents [OF k wf ne] show ?thesis by simp
  qed
  from full 1 2 3 4 5 6 7 8 9 push_wf [OF wf] pushOverwrite_wf [OF wf] pop_wf [OF wf]
    length_contents [of ?C rb]
  show ?thesis by blast
qed

theorem RingBuffer_sequential_witness:
  "(2::nat) < 64 \<and> rb_wf (2 ^ 2) three_pushed
   \<and> size_rb (2 ^ 2) three_pushed = 2 ^ 2 - 1
   \<and> \<not> fst (push (2 ^ 2) 9 three_pushed)
   \<and> snd (push (2 ^ 2) 9 three_pushed) = three_pushed
   \<and> contents (2 ^ 2) three_pushed = [1, 2, 3]
   \<and> contents (2 ^ 2) (pushOverwrite (2 ^ 2) 9 three_pushed) = [2, 3, 9]
   \<and> fst (pop (2 ^ 2) three_pushed) = Some 1
   \<and> contents (2 ^ 2) (snd (pop (2 ^ 2) three_pushed)) = [2, 3]
   \<and> rb_wf (2 ^ 2) (new_RingBuffer [0, 0, 0, 0::nat])
   \<and> size_rb (2 ^ 2) (new_RingBuffer [0, 0, 0, 0::nat]) \<noteq> 2 ^ 2 - 1
   \<and> contents (2 ^ 2) (new_RingBuffer [0, 0, 0, 0::nat]) = []
   \<and> pop (2 ^ 2) (new_RingBuffer [0, 0, 0, 0::nat]) = (None, new_RingBuffer [0, 0, 0, 0])
   \<and> fst (push (2 ^ 2) 1 (new_RingBuffer [0, 0, 0, 0::nat]))
   \<and> contents (2 ^ 2) (snd (push (2 ^ 2) 1 (new_RingBuffer [0, 0, 0, 0::nat]))) = [1]
   \<and> contents (2 ^ 2) (pushOverwrite (2 ^ 2) 1 (new_RingBuffer [0, 0, 0, 0::nat])) = [1]"
  using RingBuffer_sequential [OF two_less three_pushed_wf, of 9]
    RingBuffer_sequential [OF two_less new_buffer_wf, of 1]
    three_pushed_wf three_pushed_size three_pushed_contents new_buffer_wf new_buffer_size new_buffer_contents
  by simp


end
